theory Spec2Isabelle
  imports Complex_Main
begin

section \<open>JavaScript values as the backend uses them\<close>

text \<open>
  The embedding follows \<^verbatim>\<open>src/index.js\<close>. The conventions of the model:

  \<^item> A JavaScript string is a \<^typ>\<open>string\<close>; every \<^typ>\<open>char\<close> stands for one UTF-16
    code unit below 256. Code units from 256 on (among them the white space
    characters beyond U+00A0) are outside the model.
  \<^item> A JavaScript number is a \<open>jsnum\<close>: a finite value carried as an exact real,
    the two infinities, or NaN. Rounding of binary floating point, overflow to an
    infinity and the sign of zero are not modelled: arithmetic on finite values is
    exact.
  \<^item> \<^verbatim>\<open>null\<close> and \<^verbatim>\<open>undefined\<close> results are \<open>None\<close>; a thrown \<^verbatim>\<open>TypeError\<close>
    is the left injection of a sum.
\<close>

datatype jsnum = Fin real | PInf | NInf | NaN

datatype json =
    JNull
  | JBool bool
  | JNum jsnum
  | JStr string
  | JArr "json list"
  | JObj "(string \<times> json) list"

datatype error = TypeError

subsection \<open>Characters, white space, \<^verbatim>\<open>String.prototype.trim\<close>\<close>

definition is_digit :: "char \<Rightarrow> bool" where
  "is_digit c = (c \<in> set ''0123456789'')"

definition digit_val :: "char \<Rightarrow> nat" where
  "digit_val c = (of_char c :: nat) - 48"

text \<open>White space of \<^verbatim>\<open>\s\<close> and of \<^verbatim>\<open>trim\<close>: TAB, LF, VT, FF, CR, SP, NBSP.\<close>

definition is_js_ws :: "char \<Rightarrow> bool" where
  "is_js_ws c = (c \<in> {CHR 0x09, CHR 0x0A, CHR 0x0B, CHR 0x0C, CHR 0x0D, CHR 0x20, CHR 0xA0})"

definition trim :: "string \<Rightarrow> string" where
  "trim s = rev (dropWhile is_js_ws (rev (dropWhile is_js_ws s)))"

definition upper_chars :: string where
  "upper_chars = ''ABCDEFGHIJKLMNOPQRSTUVWXYZ''"

definition lower_chars :: string where
  "lower_chars = ''abcdefghijklmnopqrstuvwxyz''"

definition is_letter :: "char \<Rightarrow> bool" where
  "is_letter c = (c \<in> set lower_chars \<or> c \<in> set upper_chars)"

text \<open>\<^verbatim>\<open>toLowerCase\<close> on the ASCII letters (the only letters a unit token can hold).\<close>

definition to_lower :: "char \<Rightarrow> char" where
  "to_lower c = (case map_of (zip upper_chars lower_chars) c of Some l \<Rightarrow> l | None \<Rightarrow> c)"

definition toLowerCase :: "string \<Rightarrow> string" where
  "toLowerCase s = map to_lower s"

subsection \<open>Numbers\<close>

text \<open>The value of a run of decimal digits, most significant first.\<close>

definition digits_val :: "string \<Rightarrow> nat" where
  "digits_val ds = foldl (\<lambda>a c. 10 * a + digit_val c) 0 ds"

text \<open>
  \<^verbatim>\<open>parseFloat\<close> on a string of the shape \<^verbatim>\<open>\d+(?:\.\d+)?\<close>, the only strings the
  backend passes to it (the first capture group of its two regular expressions):
  the digits before the point, and the digits after it scaled by their count.
\<close>

definition parseFloat :: "string \<Rightarrow> jsnum" where
  "parseFloat s =
     (let ip = takeWhile is_digit s;
          r = dropWhile is_digit s;
          fp = (case r of c # r' \<Rightarrow> if c = CHR ''.'' then takeWhile is_digit r' else [] | [] \<Rightarrow> [])
      in if ip = [] then NaN
         else Fin (real (digits_val (ip @ fp)) / 10 ^ length fp))"

fun jmul :: "jsnum \<Rightarrow> jsnum \<Rightarrow> jsnum" where
  "jmul NaN _ = NaN"
| "jmul _ NaN = NaN"
| "jmul (Fin a) (Fin b) = Fin (a * b)"
| "jmul (Fin a) PInf = (if a = 0 then NaN else if 0 < a then PInf else NInf)"
| "jmul (Fin a) NInf = (if a = 0 then NaN else if 0 < a then NInf else PInf)"
| "jmul PInf (Fin b) = (if b = 0 then NaN else if 0 < b then PInf else NInf)"
| "jmul NInf (Fin b) = (if b = 0 then NaN else if 0 < b then NInf else PInf)"
| "jmul PInf PInf = PInf"
| "jmul PInf NInf = NInf"
| "jmul NInf PInf = NInf"
| "jmul NInf NInf = PInf"


text \<open>Truthiness of a number: \<^verbatim>\<open>0\<close> and \<^verbatim>\<open>NaN\<close> are falsy.\<close>

fun num_truthy :: "jsnum \<Rightarrow> bool" where
  "num_truthy (Fin x) = (x \<noteq> 0)"
| "num_truthy NaN = False"
| "num_truthy PInf = True"
| "num_truthy NInf = True"

section \<open>QuantityParser: \<^verbatim>\<open>parseAmountUnit\<close>\<close>

text \<open>
  The regular expression is
  \<^verbatim>\<open>/(\d+(?:\.\d+)?)\s*(g|gram|grams|kg|ml|mL|milliliter|milliliters|l|L)/i\<close>.
  At a fixed start position it is matched greedily: all digits, then a point with
  all the digits after it if there is at least one, then all white space, then the
  first alternative of the unit group that fits, letters compared without case.
  Giving back a digit or the fraction never helps, since what follows would then be
  a digit or a point, which no unit begins with; nothing follows the unit group, so
  its first fitting alternative is the one taken.
\<close>

definition scan_number :: "string \<Rightarrow> (string \<times> string) option" where
  "scan_number s =
     (let ds = takeWhile is_digit s; r = dropWhile is_digit s
      in if ds = [] then None
         else (case r of
                 [] \<Rightarrow> Some (ds, r)
               | c # r' \<Rightarrow>
                   if c = CHR ''.'' \<and> takeWhile is_digit r' \<noteq> []
                   then Some (ds @ c # takeWhile is_digit r', dropWhile is_digit r')
                   else Some (ds, r)))"

definition unit_alternatives :: "string list" where
  "unit_alternatives =
     [''g'', ''gram'', ''grams'', ''kg'', ''ml'', ''mL'', ''milliliter'', ''milliliters'', ''l'', ''L'']"

text \<open>The first alternative that is a prefix of the input, ignoring case.\<close>

fun match_alt :: "string list \<Rightarrow> string \<Rightarrow> (string \<times> string) option" where
  "match_alt [] s = None"
| "match_alt (u # us) s =
     (if length u \<le> length s \<and> toLowerCase (take (length u) s) = toLowerCase u
      then Some (take (length u) s, drop (length u) s)
      else match_alt us s)"

text \<open>A match that starts at the head of the input: number, white space, unit, rest.\<close>

definition match_here :: "string \<Rightarrow> (string \<times> string \<times> string \<times> string) option" where
  "match_here s =
     (case scan_number s of
        None \<Rightarrow> None
      | Some (num, r) \<Rightarrow>
          (case match_alt unit_alternatives (dropWhile is_js_ws r) of
             None \<Rightarrow> None
           | Some (u, rest) \<Rightarrow> Some (num, takeWhile is_js_ws r, u, rest)))"

text \<open>The leftmost match: the text before it, and the match.\<close>

fun find_match :: "string \<Rightarrow> (string \<times> string \<times> string \<times> string \<times> string) option" where
  "find_match [] = None"
| "find_match (c # cs) =
     (case match_here (c # cs) of
        Some m \<Rightarrow> Some ([], m)
      | None \<Rightarrow>
          (case find_match cs of
             None \<Rightarrow> None
           | Some (pre, m) \<Rightarrow> Some (c # pre, m)))"

record ParsedQuantity =
  grams :: "jsnum option"
  unit :: "string option"
  amount :: "jsnum option"
  baseText :: string

definition parseAmountUnit :: "string \<Rightarrow> ParsedQuantity" where
  "parseAmountUnit text =
     (if text = [] then \<lparr>grams = None, unit = None, amount = None, baseText = text\<rparr>
      else case find_match text of
        None \<Rightarrow> \<lparr>grams = None, unit = None, amount = None, baseText = text\<rparr>
      | Some (pre, num, sp, unitRaw, rest) \<Rightarrow>
          (let amount = parseFloat num;
               unit = toLowerCase unitRaw;
               grams =
                 (if unit = ''g'' \<or> unit = ''gram'' \<or> unit = ''grams'' then Some amount
                  else if unit = ''kg'' then Some (jmul amount (Fin 1000))
                  else if unit = ''ml'' \<or> unit = ''mL'' \<or> unit = ''milliliter''
                          \<or> unit = ''milliliters'' then Some amount
                  else if unit = ''l'' \<or> unit = ''L'' then Some (jmul amount (Fin 1000))
                  else None)
           in \<lparr>grams = grams, unit = Some unit, amount = Some amount,
               baseText = trim (pre @ rest)\<rparr>))"

section \<open>TextExtractor\<close>

subsection \<open>\<^verbatim>\<open>stripCodeFences\<close>\<close>

definition fence :: string where
  "fence = ''```''"

definition newline :: char where
  "newline = CHR 0x0A"

definition skip_newline :: "string \<Rightarrow> string" where
  "skip_newline s = (case s of [] \<Rightarrow> [] | c # r \<Rightarrow> if c = newline then r else s)"

lemma length_skip_newline: "length (skip_newline s) \<le> length s"
  by (cases s) (simp_all add: skip_newline_def)

text \<open>
  \<^verbatim>\<open>.replace(/```[a-zA-Z]*\n?/g, '')\<close>: left to right; at three backticks the
  match takes them, all the letters that follow and one line feed if there is one,
  and the search goes on behind the match.
\<close>

function strip_fence_open :: "string \<Rightarrow> string" where
  "strip_fence_open [] = []"
| "strip_fence_open (c # cs) =
     (if take 3 (c # cs) = fence
      then strip_fence_open (skip_newline (dropWhile is_letter (drop 2 cs)))
      else c # strip_fence_open cs)"
  by pat_completeness auto
termination
proof (relation "measure length")
  show "wf (measure length)" by simp
next
  fix c :: char and cs :: string
  have "length (skip_newline (dropWhile is_letter (drop 2 cs))) \<le> length (dropWhile is_letter (drop 2 cs))"
    by (rule length_skip_newline)
  also have "\<dots> \<le> length (drop 2 cs)"
    by (rule length_dropWhile_le)
  also have "\<dots> \<le> length cs"
    by simp
  finally show "(skip_newline (dropWhile is_letter (drop 2 cs)), c # cs) \<in> measure length"
    by simp
next
  fix c :: char and cs :: string
  show "(cs, c # cs) \<in> measure length" by simp
qed

text \<open>\<^verbatim>\<open>.replace(/```/g, '')\<close>\<close>

function strip_fence_close :: "string \<Rightarrow> string" where
  "strip_fence_close [] = []"
| "strip_fence_close (c # cs) =
     (if take 3 (c # cs) = fence
      then strip_fence_close (drop 2 cs)
      else c # strip_fence_close cs)"
  by pat_completeness auto
termination
  by (relation "measure length") simp_all

definition stripCodeFences :: "string \<Rightarrow> string" where
  "stripCodeFences text =
     (if text = [] then [] else trim (strip_fence_close (strip_fence_open text)))"

subsection \<open>\<^verbatim>\<open>indexOf\<close>, \<^verbatim>\<open>lastIndexOf\<close>, \<^verbatim>\<open>substring\<close>\<close>

text \<open>The result \<^verbatim>\<open>-1\<close> is \<open>None\<close>.\<close>

fun indexOf :: "string \<Rightarrow> char \<Rightarrow> nat option" where
  "indexOf [] c = None"
| "indexOf (x # xs) c = (if x = c then Some 0 else map_option Suc (indexOf xs c))"

definition lastIndexOf :: "string \<Rightarrow> char \<Rightarrow> nat option" where
  "lastIndexOf s c = map_option (\<lambda>i. length s - 1 - i) (indexOf (rev s) c)"

definition substring :: "string \<Rightarrow> nat \<Rightarrow> nat \<Rightarrow> string" where
  "substring s a b =
     (let a' = min a (length s); b' = min b (length s);
          lo = min a' b'; hi = max a' b'
      in take (hi - lo) (drop lo s))"

subsection \<open>\<^verbatim>\<open>JSON.parse\<close>\<close>

text \<open>
  \<^verbatim>\<open>JSON.parse\<close> is a primitive of the language; it is modelled by a recursive
  descent parser of the JSON grammar (ECMA-404). A \<^verbatim>\<open>SyntaxError\<close> is \<open>None\<close>:
  both call sites catch it and go on. An escape \<^verbatim>\<open>\uXXXX\<close> that names a code unit
  from 256 on is outside the string model, and the model rejects the text.
\<close>

definition is_json_ws :: "char \<Rightarrow> bool" where
  "is_json_ws c = (c \<in> {CHR 0x20, CHR 0x09, CHR 0x0A, CHR 0x0D})"

definition skip_ws :: "string \<Rightarrow> string" where
  "skip_ws s = dropWhile is_json_ws s"

definition hex_val :: "char \<Rightarrow> nat option" where
  "hex_val c =
     map_of (zip ''0123456789abcdefABCDEF''
               [0, 1, 2, 3, 4, 5, 6, 7, 8, 9, 10, 11, 12, 13, 14, 15, 10, 11, 12, 13, 14, 15]) c"

definition pow10 :: "int \<Rightarrow> real" where
  "pow10 e = (if 0 \<le> e then 10 ^ nat e else 1 / 10 ^ nat (- e))"

definition simple_escapes :: "(char \<times> char) list" where
  "simple_escapes =
     [(CHR 0x22, CHR 0x22), (CHR 0x5C, CHR 0x5C), (CHR ''/'', CHR ''/''),
      (CHR ''b'', CHR 0x08), (CHR ''f'', CHR 0x0C), (CHR ''n'', CHR 0x0A),
      (CHR ''r'', CHR 0x0D), (CHR ''t'', CHR 0x09)]"

definition unescape :: "string \<Rightarrow> (char \<times> string) option" where
  "unescape s =
     (case s of
        [] \<Rightarrow> None
      | e # r \<Rightarrow>
          if e = CHR ''u'' then
            (case r of
               h1 # h2 # h3 # h4 # r' \<Rightarrow>
                 (case (hex_val h1, hex_val h2, hex_val h3, hex_val h4) of
                    (Some a, Some b, Some c, Some d) \<Rightarrow>
                      (let code = ((a * 16 + b) * 16 + c) * 16 + d
                       in if code < 256 then Some (char_of code, r') else None)
                  | _ \<Rightarrow> None)
             | _ \<Rightarrow> None)
          else (case map_of simple_escapes e of
                  None \<Rightarrow> None
                | Some ch \<Rightarrow> Some (ch, r)))"

lemma unescape_length: "unescape s = Some (ch, r) \<Longrightarrow> length r < length s"
  by (auto simp: unescape_def Let_def split: list.splits option.splits if_splits)

function parse_str :: "string \<Rightarrow> string \<Rightarrow> (string \<times> string) option" where
  "parse_str [] acc = None"
| "parse_str (c # cs) acc =
     (if c = CHR 0x22 then Some (acc, cs)
      else if c = CHR 0x5C then
        (case unescape cs of
           None \<Rightarrow> None
         | Some (ch, r) \<Rightarrow> parse_str r (acc @ [ch]))
      else if (of_char c :: nat) < 32 then None
      else parse_str cs (acc @ [c]))"
  by pat_completeness auto
termination
  by (relation "measure (\<lambda>(s, acc). length s)") (auto dest: unescape_length)

lemma parse_str_length: "parse_str s acc = Some (r, t) \<Longrightarrow> length t < length s"
proof (induction s acc rule: parse_str.induct)
  case (1 acc)
  then show ?case by simp
next
  case (2 c cs acc)
  show ?case
  proof (cases "c = CHR 0x22")
    case True
    with "2.prems" show ?thesis by simp
  next
    case nq: False
    show ?thesis
    proof (cases "c = CHR 0x5C")
      case True
      with nq "2.prems" obtain ch r' where u: "unescape cs = Some (ch, r')"
        and p: "parse_str r' (acc @ [ch]) = Some (r, t)"
        by (auto split: option.splits)
      from "2.IH"(1) [OF nq True u refl p] have "length t < length r'" .
      moreover from u have "length r' < length cs" by (rule unescape_length)
      ultimately show ?thesis by simp
    next
      case nb: False
      with nq "2.prems" have c32: "\<not> (of_char c :: nat) < 32"
        and p: "parse_str cs (acc @ [c]) = Some (r, t)"
        by (auto split: if_splits)
      from "2.IH"(2) [OF nq nb c32 p] show ?thesis by simp
    qed
  qed
qed

text \<open>
  A number: \<^verbatim>\<open>-?(0|[1-9]\d*)(\.\d+)?([eE][+-]?\d+)?\<close>. After a leading zero a
  further digit ends the number in the grammar and is then an error in every
  context, so the text is rejected at once.
\<close>

definition parse_exponent :: "string \<Rightarrow> (int \<times> string) option" where
  "parse_exponent s =
     (case s of
        [] \<Rightarrow> Some (0, s)
      | e # r \<Rightarrow>
          if e = CHR ''e'' \<or> e = CHR ''E'' then
            (let neg = (case r of c # _ \<Rightarrow> c = CHR ''-'' | [] \<Rightarrow> False);
                 r' = (case r of c # t \<Rightarrow> if c = CHR ''-'' \<or> c = CHR ''+'' then t else r | [] \<Rightarrow> r);
                 ds = takeWhile is_digit r'
             in if ds = [] then None
                else Some ((if neg then - int (digits_val ds) else int (digits_val ds)),
                           dropWhile is_digit r'))
          else Some (0, s))"

definition parse_fraction :: "string \<Rightarrow> (string \<times> string) option" where
  "parse_fraction s =
     (case s of
        [] \<Rightarrow> Some ([], s)
      | c # r \<Rightarrow>
          if c = CHR ''.'' then
            (if takeWhile is_digit r = [] then None
             else Some (takeWhile is_digit r, dropWhile is_digit r))
          else Some ([], s))"

definition parse_number :: "string \<Rightarrow> (jsnum \<times> string) option" where
  "parse_number s =
     (let neg = (case s of c # _ \<Rightarrow> c = CHR ''-'' | [] \<Rightarrow> False);
          s1 = (if neg then tl s else s);
          ip = takeWhile is_digit s1
      in if ip = [] \<or> (1 < length ip \<and> hd ip = CHR ''0'') then None
         else (case parse_fraction (dropWhile is_digit s1) of
                 None \<Rightarrow> None
               | Some (fp, r2) \<Rightarrow>
                   (case parse_exponent r2 of
                      None \<Rightarrow> None
                    | Some (ex, r3) \<Rightarrow>
                        (let m = real (digits_val (ip @ fp)) * pow10 (ex - int (length fp))
                         in Some (Fin (if neg then - m else m), r3)))))"

text \<open>
  Storing a member: a repeated key keeps its place and takes the later value, as
  \<^verbatim>\<open>JSON.parse\<close> does.
\<close>

fun obj_put :: "(string \<times> json) list \<Rightarrow> string \<Rightarrow> json \<Rightarrow> (string \<times> json) list" where
  "obj_put [] k v = [(k, v)]"
| "obj_put ((k', v') # kvs) k v =
     (if k' = k then (k, v) # kvs else (k', v') # obj_put kvs k v)"

lemma length_skip_ws: "length (skip_ws s) \<le> length s"
  by (simp add: skip_ws_def length_dropWhile_le)

lemma skip_ws_Cons_length: "skip_ws s = c # r \<Longrightarrow> length r < length s"
  using length_skip_ws [of s] by simp

text \<open>
  A value, the elements of an array after \<^verbatim>\<open>[\<close>, the members of an object after
  \<^verbatim>\<open>{\<close>; each returns what it read and the rest of the input. The tests
  \<open>length r < length s\<close> say that a value is never empty.
\<close>

function parse_value :: "string \<Rightarrow> (json \<times> string) option"
  and parse_elems :: "string \<Rightarrow> json list \<Rightarrow> (json \<times> string) option"
  and parse_members :: "string \<Rightarrow> (string \<times> json) list \<Rightarrow> (json \<times> string) option"
where
  "parse_value s =
     (case skip_ws s of
        [] \<Rightarrow> None
      | c # r \<Rightarrow>
          if c = CHR ''['' then
            (case skip_ws r of
               [] \<Rightarrow> None
             | d # r' \<Rightarrow> if d = CHR '']'' then Some (JArr [], r') else parse_elems r [])
          else if c = CHR ''{'' then
            (case skip_ws r of
               [] \<Rightarrow> None
             | d # r' \<Rightarrow> if d = CHR ''}'' then Some (JObj [], r') else parse_members r [])
          else if c = CHR 0x22 then
            (case parse_str r [] of None \<Rightarrow> None | Some (str, r') \<Rightarrow> Some (JStr str, r'))
          else if take 4 (c # r) = ''true'' then Some (JBool True, drop 3 r)
          else if take 5 (c # r) = ''false'' then Some (JBool False, drop 4 r)
          else if take 4 (c # r) = ''null'' then Some (JNull, drop 3 r)
          else (case parse_number (c # r) of
                  None \<Rightarrow> None
                | Some (n, r') \<Rightarrow> Some (JNum n, r')))"
| "parse_elems s acc =
     (case parse_value s of
        None \<Rightarrow> None
      | Some (v, r) \<Rightarrow>
          if length r < length s then
            (case skip_ws r of
               [] \<Rightarrow> None
             | d # r' \<Rightarrow>
                 if d = CHR '','' then parse_elems r' (acc @ [v])
                 else if d = CHR '']'' then Some (JArr (acc @ [v]), r')
                 else None)
          else None)"
| "parse_members s acc =
     (case skip_ws s of
        [] \<Rightarrow> None
      | q # r \<Rightarrow>
          if q = CHR 0x22 then
            (case parse_str r [] of
               None \<Rightarrow> None
             | Some (k, r1) \<Rightarrow>
                 (case skip_ws r1 of
                    [] \<Rightarrow> None
                  | col # r2 \<Rightarrow>
                      if col = CHR '':'' then
                        (case parse_value r2 of
                           None \<Rightarrow> None
                         | Some (v, r3) \<Rightarrow>
                             if length r3 < length r2 then
                               (case skip_ws r3 of
                                  [] \<Rightarrow> None
                                | d # r4 \<Rightarrow>
                                    if d = CHR '','' then parse_members r4 (obj_put acc k v)
                                    else if d = CHR ''}'' then Some (JObj (obj_put acc k v), r4)
                                    else None)
                             else None)
                      else None))
          else None)"
  by pat_completeness auto

termination
proof (relation "measures [\<lambda>x. case x of Inl s \<Rightarrow> length s | Inr (Inl (s, a)) \<Rightarrow> length s | Inr (Inr (s, a)) \<Rightarrow> length s,
                           \<lambda>x. case x of Inl s \<Rightarrow> 0 | Inr (Inl (s, a)) \<Rightarrow> 1 | Inr (Inr (s, a)) \<Rightarrow> 1]", goal_cases)
  case 1
  then show ?case by simp
next
  case (2 s c r d r')
  then show ?case by (simp add: skip_ws_Cons_length)
next
  case (3 s c r d r')
  then show ?case by (simp add: skip_ws_Cons_length)
next
  case (4 s acc)
  then show ?case by simp
next
  case (5 s acc x v r d r')
  then show ?case using skip_ws_Cons_length [of r d r'] by simp
next
  case (6 s acc q r x k r1 col r2)
  then show ?case
    using skip_ws_Cons_length [of s q r] parse_str_length [of r "[]" k r1]
      skip_ws_Cons_length [of r1 col r2] by simp
next
  case (7 s acc q r x k r1 col r2 y v r3 d r4)
  then show ?case
    using skip_ws_Cons_length [of s q r] parse_str_length [of r "[]" k r1]
      skip_ws_Cons_length [of r1 col r2] skip_ws_Cons_length [of r3 d r4] by simp
qed

definition JSON_parse :: "string \<Rightarrow> json option" where
  "JSON_parse s =
     (case parse_value s of
        None \<Rightarrow> None
      | Some (v, r) \<Rightarrow> if skip_ws r = [] then Some v else None)"

declare parse_value.simps [simp del] parse_elems.simps [simp del] parse_members.simps [simp del]
declare strip_fence_open.simps [simp del] strip_fence_close.simps [simp del] parse_str.simps [simp del]

subsection \<open>\<^verbatim>\<open>safeParseJsonArrayFromText\<close> and \<^verbatim>\<open>safeParseJsonObjectFromText\<close>\<close>

fun isArray :: "json \<Rightarrow> bool" where
  "isArray (JArr xs) = True"
| "isArray _ = False"

text \<open>\<^verbatim>\<open>typeof v === 'object'\<close>: true of objects, of arrays and of \<^verbatim>\<open>null\<close>.\<close>

fun typeof_object :: "json \<Rightarrow> bool" where
  "typeof_object JNull = True"
| "typeof_object (JArr xs) = True"
| "typeof_object (JObj kvs) = True"
| "typeof_object _ = False"

fun truthy :: "json \<Rightarrow> bool" where
  "truthy JNull = False"
| "truthy (JBool b) = b"
| "truthy (JNum n) = num_truthy n"
| "truthy (JStr s) = (s \<noteq> [])"
| "truthy (JArr xs) = True"
| "truthy (JObj kvs) = True"

text \<open>One \<^verbatim>\<open>try { const parsed = JSON.parse(t); if (ok(parsed)) return parsed; } catch {}\<close>.\<close>

definition try_parse :: "(json \<Rightarrow> bool) \<Rightarrow> string \<Rightarrow> json option" where
  "try_parse ok t =
     (case JSON_parse t of
        None \<Rightarrow> None
      | Some parsed \<Rightarrow> if ok parsed then Some parsed else None)"

text \<open>The block from the first \<open>open\<close> bracket to the last \<open>close\<close> bracket, when there is one.\<close>

definition bracket_slice :: "string \<Rightarrow> char \<Rightarrow> char \<Rightarrow> string option" where
  "bracket_slice cleaned opn cls =
     (case (indexOf cleaned opn, lastIndexOf cleaned cls) of
        (Some start, Some end) \<Rightarrow>
          if start < end then Some (substring cleaned start (end + 1)) else None
      | _ \<Rightarrow> None)"

definition safeParseJsonArrayFromText :: "string \<Rightarrow> json option" where
  "safeParseJsonArrayFromText text =
     (let cleaned = stripCodeFences text
      in case try_parse isArray cleaned of
           Some parsed \<Rightarrow> Some parsed
         | None \<Rightarrow>
             (case bracket_slice cleaned (CHR ''['') (CHR '']'') of
                None \<Rightarrow> None
              | Some slice \<Rightarrow> try_parse isArray slice))"

definition safeParseJsonObjectFromText :: "string \<Rightarrow> json option" where
  "safeParseJsonObjectFromText text =
     (let cleaned = stripCodeFences text
      in case try_parse (\<lambda>parsed. truthy parsed \<and> typeof_object parsed) cleaned of
           Some parsed \<Rightarrow> Some parsed
         | None \<Rightarrow>
             (case bracket_slice cleaned (CHR ''{'') (CHR ''}'') of
                None \<Rightarrow> None
              | Some slice \<Rightarrow> try_parse (\<lambda>parsed. truthy parsed \<and> typeof_object parsed) slice))"

section \<open>PortionParser: \<^verbatim>\<open>extractGramsFromPortion\<close>\<close>




section \<open>Conversions between values\<close>

subsection \<open>\<^verbatim>\<open>Number::toString\<close>\<close>

definition digit_char :: "nat \<Rightarrow> char" where
  "digit_char d = ''0123456789'' ! (d mod 10)"

function nat_digits :: "nat \<Rightarrow> string" where
  "nat_digits n = (if n < 10 then [digit_char n] else nat_digits (n div 10) @ [digit_char (n mod 10)])"
  by pat_completeness auto
termination
  by (relation "measure id") simp_all

declare nat_digits.simps [simp del]

text \<open>
  The digits of a fraction \<open>0 \<le> f < 1\<close>, until nothing is left. A double has at
  most 17 significant digits, so the bound is never reached on the decimals the
  backend prints.
\<close>

fun frac_digits :: "nat \<Rightarrow> real \<Rightarrow> string" where
  "frac_digits 0 f = []"
| "frac_digits (Suc n) f =
     (if f = 0 then []
      else digit_char (nat \<lfloor>f * 10\<rfloor>) # frac_digits n (f * 10 - real_of_int \<lfloor>f * 10\<rfloor>))"

definition positional :: "real \<Rightarrow> string" where
  "positional x =
     nat_digits (nat \<lfloor>x\<rfloor>) @
     (if x = real_of_int \<lfloor>x\<rfloor> then [] else CHR ''.'' # frac_digits 40 (x - real_of_int \<lfloor>x\<rfloor>))"

text \<open>The least \<open>e\<close> with \<open>1 \<le> x * 10 ^ e\<close>, for \<open>0 < x < 1\<close> (a double is at least \<open>5e-324\<close>).\<close>

fun small_exp :: "nat \<Rightarrow> real \<Rightarrow> nat" where
  "small_exp 0 x = 0"
| "small_exp (Suc n) x = (if 1 \<le> x then 0 else Suc (small_exp n (x * 10)))"

text \<open>
  A positive value: positional from \<open>1e-6\<close> up to \<open>1e21\<close>, with an exponent outside.
\<close>

definition positive_to_string :: "real \<Rightarrow> string" where
  "positive_to_string x =
     (if 10 ^ 21 \<le> x then
        (let e = length (nat_digits (nat \<lfloor>x\<rfloor>)) - 1
         in positional (x / 10 ^ e) @ ''e+'' @ nat_digits e)
      else if 1 / 10 ^ 6 \<le> x then positional x
      else
        (let e = small_exp 400 x
         in positional (x * 10 ^ e) @ ''e-'' @ nat_digits e))"

fun NumberToString :: "jsnum \<Rightarrow> string" where
  "NumberToString NaN = ''NaN''"
| "NumberToString PInf = ''Infinity''"
| "NumberToString NInf = ''-Infinity''"
| "NumberToString (Fin x) =
     (if x = 0 then ''0''
      else if x < 0 then CHR ''-'' # positive_to_string (- x)
      else positive_to_string x)"

subsection \<open>\<^verbatim>\<open>StringToNumber\<close>: the conversion \<^verbatim>\<open>Number(s)\<close> of a string\<close>

text \<open>Digits of a radix: the value of the whole string, if every character is a digit.\<close>

definition radix_val :: "nat \<Rightarrow> string \<Rightarrow> nat option" where
  "radix_val b ds =
     (if ds \<noteq> [] \<and> (\<forall>c \<in> set ds. case hex_val c of None \<Rightarrow> False | Some d \<Rightarrow> d < b)
      then Some (foldl (\<lambda>a c. b * a + the (hex_val c)) 0 ds)
      else None)"

text \<open>
  An unsigned decimal literal that is the whole string: digits, a point, digits
  (one of the two runs may be empty), an exponent.
\<close>

definition str_decimal :: "string \<Rightarrow> real option" where
  "str_decimal s =
     (let ip = takeWhile is_digit s;
          r = dropWhile is_digit s;
          dot = (case r of c # _ \<Rightarrow> c = CHR ''.'' | [] \<Rightarrow> False);
          fp = (if dot then takeWhile is_digit (tl r) else []);
          r2 = (if dot then dropWhile is_digit (tl r) else r)
      in if ip = [] \<and> fp = [] then None
         else (case parse_exponent r2 of
                 None \<Rightarrow> None
               | Some (ex, r3) \<Rightarrow>
                   if r3 = [] then Some (real (digits_val (ip @ fp)) * pow10 (ex - int (length fp)))
                   else None))"

definition StringToNumber :: "string \<Rightarrow> jsnum" where
  "StringToNumber s =
     (let t = trim s;
          neg = (case t of c # _ \<Rightarrow> c = CHR ''-'' | [] \<Rightarrow> False);
          body = (case t of c # r \<Rightarrow> if c = CHR ''-'' \<or> c = CHR ''+'' then r else t | [] \<Rightarrow> t)
      in if t = [] then Fin 0
         else if body = ''Infinity'' then (if neg then NInf else PInf)
         else (case str_decimal body of
                 Some m \<Rightarrow> Fin (if neg then - m else m)
               | None \<Rightarrow>
                   (case t of
                      z # x # ds \<Rightarrow>
                        if z = CHR ''0'' \<and> (x = CHR ''x'' \<or> x = CHR ''X'') then
                          (case radix_val 16 ds of Some n \<Rightarrow> Fin (real n) | None \<Rightarrow> NaN)
                        else if z = CHR ''0'' \<and> (x = CHR ''o'' \<or> x = CHR ''O'') then
                          (case radix_val 8 ds of Some n \<Rightarrow> Fin (real n) | None \<Rightarrow> NaN)
                        else if z = CHR ''0'' \<and> (x = CHR ''b'' \<or> x = CHR ''B'') then
                          (case radix_val 2 ds of Some n \<Rightarrow> Fin (real n) | None \<Rightarrow> NaN)
                        else NaN
                    | _ \<Rightarrow> NaN)))"

subsection \<open>\<^verbatim>\<open>String(v)\<close> and \<^verbatim>\<open>Number(v)\<close> on parsed values\<close>

text \<open>
  A parsed object inherits \<^verbatim>\<open>toString\<close> and \<^verbatim>\<open>valueOf\<close> from
  \<^verbatim>\<open>Object.prototype\<close>. \<^verbatim>\<open>valueOf\<close> returns the object itself, which is no
  primitive, so the conversion rests on \<^verbatim>\<open>toString\<close>: the inherited one gives
  \<^verbatim>\<open>[object Object]\<close>; an own member named \<^verbatim>\<open>toString\<close> hides it, is never
  callable, and the conversion throws a \<^verbatim>\<open>TypeError\<close>. An array is joined with
  commas, \<^verbatim>\<open>null\<close> elements giving the empty string.
\<close>

fun ToString :: "json \<Rightarrow> error + string"
  and join_elems :: "json list \<Rightarrow> error + string"
where
  "ToString JNull = Inr ''null''"
| "ToString (JBool b) = Inr (if b then ''true'' else ''false'')"
| "ToString (JNum n) = Inr (NumberToString n)"
| "ToString (JStr s) = Inr s"
| "ToString (JArr xs) = join_elems xs"
| "ToString (JObj kvs) =
     (if ''toString'' \<in> set (map fst kvs) then Inl TypeError else Inr ''[object Object]'')"
| "join_elems [] = Inr []"
| "join_elems (x # xs) =
     (case (if x = JNull then Inr [] else ToString x) of
        Inl e \<Rightarrow> Inl e
      | Inr a \<Rightarrow>
          if xs = [] then Inr a
          else (case join_elems xs of
                  Inl e \<Rightarrow> Inl e
                | Inr b \<Rightarrow> Inr (a @ '','' @ b)))"

fun ToNumber :: "json \<Rightarrow> error + jsnum" where
  "ToNumber JNull = Inr (Fin 0)"
| "ToNumber (JBool b) = Inr (Fin (if b then 1 else 0))"
| "ToNumber (JNum n) = Inr n"
| "ToNumber (JStr s) = Inr (StringToNumber s)"
| "ToNumber v = (case ToString v of Inl e \<Rightarrow> Inl e | Inr s \<Rightarrow> Inr (StringToNumber s))"

section \<open>NutrientRecord Normalizer\<close>

text \<open>
  Property access \<^verbatim>\<open>item.key\<close> on a parsed value, for the keys the backend reads
  (the nineteen fields of a record and \<^verbatim>\<open>suggestions\<close>): an object yields its own
  member; an array has no member of such a name, nor has any prototype.
\<close>

fun get_prop :: "json \<Rightarrow> string \<Rightarrow> json option" where
  "get_prop (JObj kvs) k = map_of kvs k"
| "get_prop _ k = None"

text \<open>\<^verbatim>\<open>item.key || dflt\<close>\<close>

definition or_default :: "json option \<Rightarrow> json \<Rightarrow> json" where
  "or_default v dflt = (case v of None \<Rightarrow> dflt | Some x \<Rightarrow> if truthy x then x else dflt)"

text \<open>The numeric fields in the order of the object literal of the normalizer.\<close>

definition normalized_keys :: "string list" where
  "normalized_keys =
     [''calories'', ''protein'', ''carbs'', ''fat'', ''fiber'', ''sugar'', ''sodium'', ''iron'',
      ''zinc'', ''calcium'', ''vitaminB12'', ''vitaminD'', ''vitaminA'', ''omega3'', ''vitaminC'',
      ''magnesium'', ''potassium'']"

text \<open>\<^verbatim>\<open>key: Number(item.key || 0)\<close>\<close>

definition number_field :: "json \<Rightarrow> string \<Rightarrow> error + jsnum" where
  "number_field item k = ToNumber (or_default (get_prop item k) (JNum (Fin 0)))"

fun number_fields :: "json \<Rightarrow> string list \<Rightarrow> error + (string \<times> json) list" where
  "number_fields item [] = Inr []"
| "number_fields item (k # ks) =
     (case number_field item k of
        Inl e \<Rightarrow> Inl e
      | Inr n \<Rightarrow>
          (case number_fields item ks of
             Inl e \<Rightarrow> Inl e
           | Inr fs \<Rightarrow> Inr ((k, JNum n) # fs)))"

text \<open>
  The arrow function of \<^verbatim>\<open>.map(item => ({ name: ..., portion: ..., calories: ..., ... }))\<close>:
  the members are evaluated in order, and the first conversion that throws ends it.
\<close>

definition normalize :: "string \<Rightarrow> json \<Rightarrow> error + (string \<times> json) list" where
  "normalize query item =
     (case ToString (or_default (get_prop item ''name'') (JStr query)) of
        Inl e \<Rightarrow> Inl e
      | Inr name \<Rightarrow>
          (case ToString (or_default (get_prop item ''portion'') (JStr ''1 serving (100g)'')) of
             Inl e \<Rightarrow> Inl e
           | Inr portion \<Rightarrow>
               (case number_fields item normalized_keys of
                  Inl e \<Rightarrow> Inl e
                | Inr fs \<Rightarrow> Inr ((''name'', JStr name) # (''portion'', JStr portion) # fs))))"

text \<open>A \<^verbatim>\<open>map\<close> whose callback may throw.\<close>

fun map_throwing :: "('a \<Rightarrow> error + 'b) \<Rightarrow> 'a list \<Rightarrow> error + 'b list" where
  "map_throwing f [] = Inr []"
| "map_throwing f (x # xs) =
     (case f x of
        Inl e \<Rightarrow> Inl e
      | Inr y \<Rightarrow>
          (case map_throwing f xs of
             Inl e \<Rightarrow> Inl e
           | Inr ys \<Rightarrow> Inr (y # ys)))"


section \<open>Scaler\<close>













section \<open>The two pipelines\<close>

datatype response =
    Results "(string \<times> json) list list"
  | Suggestions "string list"
  | Failed nat string


text \<open>
  \<^verbatim>\<open>parsed.suggestions.map(s => String(s)).filter(s => s && s.trim()).slice(0, 6)\<close>
\<close>

definition suggestions_of :: "json list \<Rightarrow> error + string list" where
  "suggestions_of entries =
     (case map_throwing ToString entries of
        Inl e \<Rightarrow> Inl e
      | Inr strs \<Rightarrow> Inr (take 6 (filter (\<lambda>s. s \<noteq> [] \<and> trim s \<noteq> []) strs)))"

text \<open>\<^verbatim>\<open>POST /api/suggestions\<close> behind the checks of the body and of the API key.\<close>

definition suggest :: "string \<Rightarrow> response" where
  "suggest text =
     (case safeParseJsonObjectFromText text of
        None \<Rightarrow> Failed 502 ''AI response missing suggestions array''
      | Some parsed \<Rightarrow>
          (case get_prop parsed ''suggestions'' of
             Some (JArr entries) \<Rightarrow>
               (case suggestions_of entries of
                  Inl e \<Rightarrow> Failed 502 ''Gemini suggestions request failed''
                | Inr suggestions \<Rightarrow> Suggestions suggestions)
           | _ \<Rightarrow> Failed 502 ''AI response missing suggestions array''))"

section \<open>Notions of the specification\<close>

text \<open>
  The conversion table of the specification, on the lower-cased unit token:
  \<^verbatim>\<open>g/gram/grams\<close> times 1, \<^verbatim>\<open>kg\<close> times 1000, \<^verbatim>\<open>ml/milliliter(s)\<close> times 1,
  \<^verbatim>\<open>l/L\<close> times 1000.
\<close>

definition unit_factor :: "string \<Rightarrow> real" where
  "unit_factor u =
     (if u \<in> {''g'', ''gram'', ''grams''} then 1
      else if u = ''kg'' then 1000
      else if u \<in> {''ml'', ''milliliter'', ''milliliters''} then 1
      else if u = ''l'' then 1000
      else 0)"

text \<open>A blank entry of the specification: empty, or white space only.\<close>

definition blank :: "string \<Rightarrow> bool" where
  "blank s = list_all is_js_ws s"




text \<open>
  The wrapping of the specification: a JSON text in a fenced code block with a
  language tag, between leading and trailing prose.
\<close>

definition fence_wrap :: "string \<Rightarrow> string \<Rightarrow> string \<Rightarrow> string \<Rightarrow> string" where
  "fence_wrap before lang json after =
     before @ fence @ lang @ [newline] @ json @ [newline] @ fence @ after"

text \<open>
  The quantity pattern of the specification, read as a language: a number (digits,
  then possibly a point and more digits), white space, and a unit token in any
  case. The pattern occurs in a text when some suffix of the text starts with it.
\<close>

definition quantity_at_head :: "string \<Rightarrow> bool" where
  "quantity_at_head s =
     (\<exists>ds fr sp u rest.
        s = ds @ fr @ sp @ u @ rest
        \<and> ds \<noteq> [] \<and> (\<forall>c \<in> set ds. is_digit c)
        \<and> (fr = [] \<or> (\<exists>fs. fr = CHR ''.'' # fs \<and> fs \<noteq> [] \<and> (\<forall>c \<in> set fs. is_digit c)))
        \<and> (\<forall>c \<in> set sp. is_js_ws c)
        \<and> (\<exists>a \<in> set unit_alternatives. length u = length a \<and> toLowerCase u = toLowerCase a))"


section \<open>Properties of the QuantityParser\<close>

lemma is_js_ws_not_digit: "is_js_ws c \<Longrightarrow> \<not> is_digit c"
  by (auto simp: is_js_ws_def is_digit_def)

lemma scan_number_span:
  assumes "scan_number s = Some (num, r)"
  shows "s = num @ r" and "num \<noteq> []" and "is_digit (hd num)"
proof -
  let ?ds = "takeWhile is_digit s"
  from assms have ne: "?ds \<noteq> []"
    by (auto simp: scan_number_def Let_def split: if_splits)
  have hd_ds: "is_digit (hd ?ds)"
    using ne by (metis hd_in_set set_takeWhileD)
  from assms ne consider (int) "num = ?ds" "r = dropWhile is_digit s"
    | (frac) c r' where "dropWhile is_digit s = c # r'"
        "num = ?ds @ c # takeWhile is_digit r'" "r = dropWhile is_digit r'"
    by (auto simp: scan_number_def Let_def split: if_splits list.splits)
  then show "s = num @ r"
  proof cases
    case int
    then show ?thesis by simp
  next
    case frac
    have "s = ?ds @ dropWhile is_digit s" by simp
    also have "\<dots> = ?ds @ c # (takeWhile is_digit r' @ dropWhile is_digit r')"
      using frac(1) by simp
    finally show ?thesis using frac by simp
  qed
  from assms ne show "num \<noteq> []"
    by (auto simp: scan_number_def Let_def split: if_splits list.splits)
  from assms ne hd_ds show "is_digit (hd num)"
    by (auto simp: scan_number_def Let_def split: if_splits list.splits)
qed


lemma match_alt_span:
  "match_alt us s = Some (u, rest) \<Longrightarrow>
     s = u @ rest \<and> (\<exists>a \<in> set us. toLowerCase u = toLowerCase a)"
  by (induction us) (auto split: if_splits)

lemma match_here_span:
  assumes "match_here s = Some (num, sp, u, rest)"
  shows "s = num @ sp @ u @ rest"
    and "num \<noteq> []" and "is_digit (hd num)"
    and "\<exists>a \<in> set unit_alternatives. toLowerCase u = toLowerCase a"
proof -
  from assms obtain r where sn: "scan_number s = Some (num, r)"
    and ma: "match_alt unit_alternatives (dropWhile is_js_ws r) = Some (u, rest)"
    and sp: "sp = takeWhile is_js_ws r"
    by (auto simp: match_here_def split: option.splits)
  from scan_number_span [OF sn] show "num \<noteq> []" and "is_digit (hd num)" by simp_all
  from match_alt_span [OF ma]
  have dr: "dropWhile is_js_ws r = u @ rest"
    and alt: "\<exists>a \<in> set unit_alternatives. toLowerCase u = toLowerCase a" by simp_all
  from alt show "\<exists>a \<in> set unit_alternatives. toLowerCase u = toLowerCase a" .
  have "r = sp @ u @ rest"
    using sp dr by (metis takeWhile_dropWhile_id)
  with scan_number_span(1) [OF sn] show "s = num @ sp @ u @ rest" by simp
qed

lemma match_here_Nil: "match_here [] = None"
  by (simp add: match_here_def scan_number_def)

lemma match_here_nondigit: "\<not> is_digit c \<Longrightarrow> match_here (c # cs) = None"
  by (simp add: match_here_def scan_number_def)

lemma find_match_here: "match_here s = Some m \<Longrightarrow> find_match s = Some ([], m)"
  by (cases s) (simp_all add: match_here_Nil)

lemma find_match_skip:
  "\<forall>c \<in> set pre. \<not> is_digit c \<Longrightarrow>
     find_match (pre @ s) = map_option (\<lambda>(p, m). (pre @ p, m)) (find_match s)"
proof (induction pre)
  case Nil
  show ?case by (cases "find_match s") auto
next
  case (Cons c pre)
  then have "match_here (c # pre @ s) = None"
    by (simp add: match_here_nondigit)
  with Cons show ?case
    by (cases "find_match s") auto
qed



lemma lower_alternatives:
  "a \<in> set unit_alternatives \<Longrightarrow>
     toLowerCase a \<in> {''g'', ''gram'', ''grams'', ''kg'', ''ml'', ''milliliter'', ''milliliters'', ''l''}"
  by (auto simp: unit_alternatives_def toLowerCase_def to_lower_def upper_chars_def lower_chars_def)

lemma parseAmountUnit_match:
  assumes fm: "find_match text = Some (pre, num, sp, u, rest)"
    and pf: "parseFloat num = Fin a"
    and alt: "\<exists>b \<in> set unit_alternatives. toLowerCase u = toLowerCase b"
  shows "parseAmountUnit text =
           \<lparr>grams = Some (Fin (a * unit_factor (toLowerCase u))), unit = Some (toLowerCase u),
            amount = Some (Fin a), baseText = trim (pre @ rest)\<rparr>"
proof -
  from fm have ne: "text \<noteq> []" by auto
  from alt lower_alternatives
  have "toLowerCase u \<in> {''g'', ''gram'', ''grams'', ''kg'', ''ml'', ''milliliter'', ''milliliters'', ''l''}"
    by metis
  then consider "toLowerCase u = ''g''" | "toLowerCase u = ''gram''" | "toLowerCase u = ''grams''"
    | "toLowerCase u = ''kg''" | "toLowerCase u = ''ml''" | "toLowerCase u = ''milliliter''"
    | "toLowerCase u = ''milliliters''" | "toLowerCase u = ''l''"
    by auto
  then show ?thesis
    by cases (simp_all add: parseAmountUnit_def fm pf ne unit_factor_def Let_def)
qed

lemma scan_number_digits:
  assumes ds: "ds \<noteq> []" "\<forall>c \<in> set ds. is_digit c"
    and x: "\<not> is_digit x" "x \<noteq> CHR ''.''"
  shows "scan_number (ds @ x # r) = Some (ds, x # r)"
proof -
  from ds(2) x(1) have t: "takeWhile is_digit (ds @ x # r) = ds"
    by (simp add: takeWhile_append2)
  from ds(2) x(1) have d: "dropWhile is_digit (ds @ x # r) = x # r"
    by (simp add: dropWhile_append2)
  from t d ds(1) x(2) show ?thesis
    by (simp add: scan_number_def)
qed

lemma to_lower_unit_letters:
  "to_lower CHR ''g'' = CHR ''g''" "to_lower CHR ''G'' = CHR ''g''"
  "to_lower CHR ''l'' = CHR ''l''" "to_lower CHR ''L'' = CHR ''l''"
  "to_lower CHR ''k'' = CHR ''k''" "to_lower CHR ''m'' = CHR ''m''"
  by (simp_all add: to_lower_def upper_chars_def lower_chars_def)

lemma match_alt_unit_letter:
  assumes "c \<in> {CHR ''g'', CHR ''G'', CHR ''l'', CHR ''L''}"
  shows "match_alt unit_alternatives (c # rest) = Some ([c], rest)"
proof -
  from assms consider "c = CHR ''g''" | "c = CHR ''G''" | "c = CHR ''l''" | "c = CHR ''L''"
    by auto
  then show ?thesis
    by cases (simp_all add: unit_alternatives_def toLowerCase_def to_lower_unit_letters)
qed

text \<open>
  The greedy matcher agrees with the pattern read as a language: it finds a match
  at a position exactly when the pattern matches there in any way at all.
\<close>

lemma to_lower_other: "c \<notin> set upper_chars \<Longrightarrow> to_lower c = c"
proof -
  assume "c \<notin> set upper_chars"
  then have "map_of (zip upper_chars lower_chars) c = None"
    by (simp add: map_of_zip_is_None upper_chars_def lower_chars_def)
  then show ?thesis by (simp add: to_lower_def)
qed

lemma not_upper: "is_digit c \<or> c = CHR ''.'' \<or> is_js_ws c \<Longrightarrow> c \<notin> set upper_chars"
  by (auto simp: is_digit_def is_js_ws_def upper_chars_def)

lemma unit_first_char:
  assumes "a \<in> set unit_alternatives" and "length u = length a" and "toLowerCase u = toLowerCase a"
  shows "u \<noteq> [] \<and> \<not> is_digit (hd u) \<and> hd u \<noteq> CHR ''.'' \<and> \<not> is_js_ws (hd u)"
proof -
  from assms(1) obtain x xs where a: "a = x # xs"
    and x: "x = CHR ''g'' \<or> x = CHR ''k'' \<or> x = CHR ''m'' \<or> x = CHR ''l'' \<or> x = CHR ''L''"
    by (auto simp: unit_alternatives_def)
  from a assms(2) obtain y ys where u: "u = y # ys" by (cases u) auto
  from u a assms(3) have yx: "to_lower y = to_lower x" by (simp add: toLowerCase_def)
  from x have lx: "to_lower x = CHR ''g'' \<or> to_lower x = CHR ''k'' \<or> to_lower x = CHR ''m''
      \<or> to_lower x = CHR ''l''"
    by (auto simp: to_lower_unit_letters)
  have "\<not> (is_digit y \<or> y = CHR ''.'' \<or> is_js_ws y)"
  proof
    assume d: "is_digit y \<or> y = CHR ''.'' \<or> is_js_ws y"
    from to_lower_other [OF not_upper [OF d]] yx have "y = to_lower x" by simp
    with lx have "y = CHR ''g'' \<or> y = CHR ''k'' \<or> y = CHR ''m'' \<or> y = CHR ''l''" by simp
    with d show False by (auto simp: is_digit_def is_js_ws_def)
  qed
  with u show ?thesis by simp
qed

lemma match_alt_complete:
  assumes "a \<in> set us" and "length u = length a" and "toLowerCase u = toLowerCase a"
  shows "match_alt us (u @ rest) \<noteq> None"
  using assms by (induction us) auto

lemma scan_number_general:
  assumes ds: "ds \<noteq> []" "\<forall>c \<in> set ds. is_digit c"
    and fr: "fr = [] \<or> (\<exists>fs. fr = CHR ''.'' # fs \<and> fs \<noteq> [] \<and> (\<forall>c \<in> set fs. is_digit c))"
    and t: "t \<noteq> []" "\<not> is_digit (hd t)" "hd t \<noteq> CHR ''.''"
  shows "scan_number (ds @ fr @ t) = Some (ds @ fr, t)"
proof -
  from t obtain x r where tr: "t = x # r" and x: "\<not> is_digit x" "x \<noteq> CHR ''.''"
    by (cases t) auto
  from fr show ?thesis
  proof
    assume "fr = []"
    with scan_number_digits [OF ds x] tr show ?thesis by simp
  next
    assume "\<exists>fs. fr = CHR ''.'' # fs \<and> fs \<noteq> [] \<and> (\<forall>c \<in> set fs. is_digit c)"
    then obtain fs where f: "fr = CHR ''.'' # fs" and fs: "fs \<noteq> []" "\<forall>c \<in> set fs. is_digit c"
      by blast
    have nd: "\<not> is_digit CHR ''.''" by (simp add: is_digit_def)
    from ds(2) nd have tw: "takeWhile is_digit (ds @ CHR ''.'' # fs @ t) = ds"
      by (simp add: takeWhile_append2)
    from ds(2) nd have dw: "dropWhile is_digit (ds @ CHR ''.'' # fs @ t) = CHR ''.'' # fs @ t"
      by (simp add: dropWhile_append2)
    from fs(2) x(1) tr have tw2: "takeWhile is_digit (fs @ t) = fs"
      by (simp add: takeWhile_append2)
    from fs(2) x(1) tr have dw2: "dropWhile is_digit (fs @ t) = t"
      by (simp add: dropWhile_append2)
    have "scan_number (ds @ CHR ''.'' # fs @ t) = Some (ds @ CHR ''.'' # fs, t)"
      unfolding scan_number_def Let_def tw dw using ds(1) fs(1) by (simp add: tw2 dw2)
    with f show ?thesis by simp
  qed
qed

lemma match_here_complete: "quantity_at_head s \<Longrightarrow> match_here s \<noteq> None"
proof -
  assume "quantity_at_head s"
  then obtain ds fr sp u rest a where s: "s = ds @ fr @ sp @ u @ rest"
    and ds: "ds \<noteq> []" "\<forall>c \<in> set ds. is_digit c"
    and fr: "fr = [] \<or> (\<exists>fs. fr = CHR ''.'' # fs \<and> fs \<noteq> [] \<and> (\<forall>c \<in> set fs. is_digit c))"
    and sp: "\<forall>c \<in> set sp. is_js_ws c"
    and a: "a \<in> set unit_alternatives" "length u = length a" "toLowerCase u = toLowerCase a"
    unfolding quantity_at_head_def by blast
  from unit_first_char [OF a] have u: "u \<noteq> []" "\<not> is_digit (hd u)" "hd u \<noteq> CHR ''.''"
    "\<not> is_js_ws (hd u)" by simp_all
  let ?t = "sp @ u @ rest"
  have t: "?t \<noteq> []" "\<not> is_digit (hd ?t)" "hd ?t \<noteq> CHR ''.''"
  proof -
    show "?t \<noteq> []" using u(1) by simp
    show "\<not> is_digit (hd ?t)"
    proof (cases sp)
      case Nil
      with u show ?thesis by simp
    next
      case (Cons x xs)
      with sp have "is_js_ws x" by simp
      with Cons show ?thesis by (simp add: is_js_ws_not_digit)
    qed
    show "hd ?t \<noteq> CHR ''.''"
    proof (cases sp)
      case Nil
      with u show ?thesis by simp
    next
      case (Cons x xs)
      with sp have "is_js_ws x" by simp
      with Cons show ?thesis by (auto simp: is_js_ws_def)
    qed
  qed
  from scan_number_general [OF ds fr t]
  have sn: "scan_number s = Some (ds @ fr, ?t)" using s by simp
  from u(1,4) have "dropWhile is_js_ws (u @ rest) = u @ rest" by (cases u) simp_all
  with sp have dw: "dropWhile is_js_ws ?t = u @ rest"
    by (simp add: dropWhile_append2)
  from match_alt_complete [OF a, of rest] obtain m
    where "match_alt unit_alternatives (u @ rest) = Some m" by auto
  with sn dw show ?thesis
    by (cases m) (simp add: match_here_def)
qed

lemma scan_number_shape:
  assumes "scan_number s = Some (num, r)"
  shows "\<exists>ds fr. num = ds @ fr \<and> ds \<noteq> [] \<and> (\<forall>c \<in> set ds. is_digit c)
           \<and> (fr = [] \<or> (\<exists>fs. fr = CHR ''.'' # fs \<and> fs \<noteq> [] \<and> (\<forall>c \<in> set fs. is_digit c)))"
proof -
  let ?ds = "takeWhile is_digit s"
  from assms have ne: "?ds \<noteq> []"
    by (auto simp: scan_number_def Let_def split: if_splits)
  have dd: "\<forall>c \<in> set ?ds. is_digit c" by (auto dest: set_takeWhileD)
  from assms ne consider (int) "num = ?ds"
    | (fr) c r' where "dropWhile is_digit s = c # r'" "c = CHR ''.''"
        "takeWhile is_digit r' \<noteq> []" "num = ?ds @ c # takeWhile is_digit r'"
    by (auto simp: scan_number_def Let_def split: if_splits list.splits)
  then show ?thesis
  proof cases
    case int
    with ne dd have "num = ?ds @ [] \<and> ?ds \<noteq> [] \<and> (\<forall>c \<in> set ?ds. is_digit c)" by simp
    then show ?thesis by blast
  next
    case fr
    have "\<forall>c \<in> set (takeWhile is_digit r'). is_digit c" by (auto dest: set_takeWhileD)
    with fr ne dd show ?thesis by blast
  qed
qed

lemma match_alt_length:
  "match_alt us s = Some (u, rest) \<Longrightarrow>
     \<exists>a \<in> set us. length u = length a \<and> toLowerCase u = toLowerCase a"
  by (induction us) (auto split: if_splits)

lemma match_here_sound: "match_here s = Some m \<Longrightarrow> quantity_at_head s"
proof -
  assume mh: "match_here s = Some m"
  obtain num sp u rest where m: "m = (num, sp, u, rest)" by (cases m) auto
  from mh m obtain r where sn: "scan_number s = Some (num, r)"
    and ma: "match_alt unit_alternatives (dropWhile is_js_ws r) = Some (u, rest)"
    and sp: "sp = takeWhile is_js_ws r"
    by (auto simp: match_here_def split: option.splits)
  from scan_number_shape [OF sn] obtain ds fr where num: "num = ds @ fr"
    and ds: "ds \<noteq> []" "\<forall>c \<in> set ds. is_digit c"
    and fr: "fr = [] \<or> (\<exists>fs. fr = CHR ''.'' # fs \<and> fs \<noteq> [] \<and> (\<forall>c \<in> set fs. is_digit c))"
    by blast
  from match_here_span(1) [OF mh [unfolded m]] num
  have s: "s = ds @ fr @ sp @ u @ rest" by simp
  from sp have spw: "\<forall>c \<in> set sp. is_js_ws c" by (auto dest: set_takeWhileD)
  from match_alt_length [OF ma] s ds fr spw show ?thesis
    unfolding quantity_at_head_def by blast
qed

lemma match_here_iff: "match_here s \<noteq> None \<longleftrightarrow> quantity_at_head s"
  using match_here_complete match_here_sound by blast







text \<open>
  C10. The pattern ends with the unit token, so a letter \<open>g\<close> or \<open>l\<close> (of either
  case) that follows a number and white space is taken as the unit, whatever comes
  behind it; only the number, the white space and that one letter leave the query.
  Stated for a number that is the first in the query.
\<close>

theorem C10_unit_letter_of_a_word_is_taken:
  assumes pre: "\<forall>x \<in> set pre. \<not> is_digit x"
    and ds: "ds \<noteq> []" "\<forall>x \<in> set ds. is_digit x"
    and sp: "\<forall>x \<in> set sp. is_js_ws x"
    and c: "c \<in> {CHR ''g'', CHR ''G'', CHR ''l'', CHR ''L''}"
  shows "parseAmountUnit (pre @ ds @ sp @ c # rest) =
           \<lparr>grams = Some (Fin (real (digits_val ds) * (if to_lower c = CHR ''g'' then 1 else 1000))),
            unit = Some [to_lower c],
            amount = Some (Fin (real (digits_val ds))),
            baseText = trim (pre @ rest)\<rparr>
         \<and> parseAmountUnit ''150 grapes'' =
           \<lparr>grams = Some (Fin 150), unit = Some ''g'', amount = Some (Fin 150),
            baseText = ''rapes''\<rparr>"
proof
  let ?s = "ds @ sp @ c # rest"
  from c have cnd: "\<not> is_digit c" "c \<noteq> CHR ''.''" "\<not> is_js_ws c"
    by (auto simp: is_digit_def is_js_ws_def)
  have sn: "scan_number ?s = Some (ds, sp @ c # rest)"
  proof (cases sp)
    case Nil
    with scan_number_digits [OF ds cnd(1,2)] show ?thesis by simp
  next
    case (Cons x xs)
    with sp have "is_js_ws x" by simp
    then have "\<not> is_digit x" "x \<noteq> CHR ''.''"
      by (auto simp: is_digit_def is_js_ws_def)
    from scan_number_digits [OF ds this] Cons show ?thesis by simp
  qed
  from sp cnd(3) have tw: "takeWhile is_js_ws (sp @ c # rest) = sp"
    by (simp add: takeWhile_append2)
  from sp cnd(3) have dw: "dropWhile is_js_ws (sp @ c # rest) = c # rest"
    by (simp add: dropWhile_append2)
  from sn tw dw match_alt_unit_letter [OF c]
  have mh: "match_here ?s = Some (ds, sp, [c], rest)"
    by (simp add: match_here_def)
  from find_match_skip [OF pre] find_match_here [OF mh]
  have fm: "find_match (pre @ ?s) = Some (pre, ds, sp, [c], rest)"
    by simp
  from ds(2) have twd: "takeWhile is_digit ds = ds" and dwd: "dropWhile is_digit ds = []"
    by simp_all
  have pf: "parseFloat ds = Fin (real (digits_val ds))"
    unfolding parseFloat_def Let_def twd dwd using ds(1) by simp
  from c have lc: "toLowerCase [c] = [to_lower c]"
    by (simp add: toLowerCase_def)
  from c consider "c = CHR ''g''" | "c = CHR ''G''" | "c = CHR ''l''" | "c = CHR ''L''"
    by auto
  then have fac: "unit_factor [to_lower c] = (if to_lower c = CHR ''g'' then 1 else 1000)"
    by cases (simp_all add: unit_factor_def to_lower_unit_letters)
  from parseAmountUnit_match [OF fm pf match_here_span(4) [OF mh]] lc fac
  show "parseAmountUnit (pre @ ds @ sp @ c # rest) =
           \<lparr>grams = Some (Fin (real (digits_val ds) * (if to_lower c = CHR ''g'' then 1 else 1000))),
            unit = Some [to_lower c],
            amount = Some (Fin (real (digits_val ds))),
            baseText = trim (pre @ rest)\<rparr>"
    by simp
next
  show "parseAmountUnit ''150 grapes'' =
           \<lparr>grams = Some (Fin 150), unit = Some ''g'', amount = Some (Fin 150),
            baseText = ''rapes''\<rparr>"
    by code_simp
qed

theorem C10_witness:
  "parseAmountUnit ''2 large eggs'' =
     \<lparr>grams = Some (Fin 2000), unit = Some ''l'', amount = Some (Fin 2),
      baseText = ''arge eggs''\<rparr>"
proof -
  have pre: "\<forall>x \<in> set ''''. \<not> is_digit x" by simp
  have ds: "''2'' \<noteq> []" "\<forall>x \<in> set ''2''. is_digit x" by (simp_all add: is_digit_def)
  have sp: "\<forall>x \<in> set '' ''. is_js_ws x" by (simp add: is_js_ws_def)
  have c: "CHR ''l'' \<in> {CHR ''g'', CHR ''G'', CHR ''l'', CHR ''L''}" by simp
  have dv: "digits_val ''2'' = 2" by code_simp
  have lo: "to_lower CHR ''l'' = CHR ''l''" by code_simp
  have tr: "trim ''arge eggs'' = ''arge eggs''" by code_simp
  from C10_unit_letter_of_a_word_is_taken [OF pre ds sp c, of "''arge eggs''"] dv lo tr
  show ?thesis by simp
qed

section \<open>Properties of the TextExtractor\<close>

lemma try_parse_Some: "try_parse ok t = Some v \<Longrightarrow> ok v \<and> JSON_parse t = Some v"
  by (auto simp: try_parse_def split: option.splits if_splits)

lemma object_test: "truthy v \<and> typeof_object v \<longleftrightarrow> (\<exists>kvs. v = JObj kvs) \<or> (\<exists>xs. v = JArr xs)"
  by (cases v) auto

text \<open>
  What the object extractor returns is an object or an array, never \<^verbatim>\<open>null\<close> or a
  primitive; a text that parses to an array comes back as that array, and the
  suggestions handler then answers 502 for want of a \<^verbatim>\<open>suggestions\<close> array.
\<close>

lemma object_extractor_admits_arrays:
  "(safeParseJsonObjectFromText text = Some v \<longrightarrow>
      (\<exists>kvs. v = JObj kvs) \<or> (\<exists>xs. v = JArr xs))
   \<and> (JSON_parse (stripCodeFences text) = Some (JArr xs) \<longrightarrow>
        safeParseJsonObjectFromText text = Some (JArr xs)
        \<and> suggest text = Failed 502 ''AI response missing suggestions array'')"
proof (intro conjI impI)
  assume "safeParseJsonObjectFromText text = Some v"
  then have "truthy v \<and> typeof_object v"
    by (auto simp: safeParseJsonObjectFromText_def Let_def
        split: option.splits dest: try_parse_Some)
  then show "(\<exists>kvs. v = JObj kvs) \<or> (\<exists>xs. v = JArr xs)"
    by (simp add: object_test)
next
  assume p: "JSON_parse (stripCodeFences text) = Some (JArr xs)"
  then show r: "safeParseJsonObjectFromText text = Some (JArr xs)"
    by (simp add: safeParseJsonObjectFromText_def Let_def try_parse_def)
  then show "suggest text = Failed 502 ''AI response missing suggestions array''"
    by (simp add: suggest_def)
qed

text \<open>
  C3. The test of the object extractor is \<^verbatim>\<open>parsed && typeof parsed === 'object'\<close>,
  which an array passes, where the array extractor tests \<^verbatim>\<open>Array.isArray\<close>. So
  the text \<^verbatim>\<open>[1,2]\<close> comes back as the array, not as a failure. The direct
  parse returns at once: for an object wrapped in an array the block from the
  first \<^verbatim>\<open>{\<close> to the last \<^verbatim>\<open>}\<close>, which holds the object, is never tried, and
  the suggestions handler answers 502.
\<close>

theorem C3_array_passes_the_object_test:
  "JSON_parse ''[1,2]'' = Some (JArr [JNum (Fin 1), JNum (Fin 2)])
   \<and> safeParseJsonObjectFromText ''[1,2]'' = Some (JArr [JNum (Fin 1), JNum (Fin 2)])
   \<and> safeParseJsonArrayFromText ''{\"a\":1}'' = None
   \<and> safeParseJsonObjectFromText ''[{\"suggestions\":[\"Add yogurt\"]}]'' =
       Some (JArr [JObj [(''suggestions'', JArr [JStr ''Add yogurt''])]])
   \<and> bracket_slice (stripCodeFences ''[{\"suggestions\":[\"Add yogurt\"]}]'') (CHR ''{'') (CHR ''}'') =
       Some ''{\"suggestions\":[\"Add yogurt\"]}''
   \<and> JSON_parse ''{\"suggestions\":[\"Add yogurt\"]}'' =
       Some (JObj [(''suggestions'', JArr [JStr ''Add yogurt''])])
   \<and> suggest ''[{\"suggestions\":[\"Add yogurt\"]}]'' =
       Failed 502 ''AI response missing suggestions array''"
  by code_simp

section \<open>Properties of the SuggestionPipeline\<close>

lemma trim_Nil_conv: "trim s = [] \<longleftrightarrow> blank s"
proof (cases "\<forall>x \<in> set s. is_js_ws x")
  case True
  then have d: "dropWhile is_js_ws s = []" by simp
  have "trim s = []" unfolding trim_def d by simp
  with True show ?thesis by (simp add: blank_def list_all_iff)
next
  case False
  then have ne: "dropWhile is_js_ws s \<noteq> []" by simp
  then have "\<not> is_js_ws (hd (dropWhile is_js_ws s))" by (rule hd_dropWhile)
  with ne have "\<not> (\<forall>x \<in> set (dropWhile is_js_ws s). is_js_ws x)"
    by (metis hd_in_set)
  with False show ?thesis by (auto simp: trim_def blank_def list_all_iff)
qed

lemma kept_conv: "(s \<noteq> [] \<and> trim s \<noteq> []) \<longleftrightarrow> \<not> blank s"
  by (cases s) (simp_all add: trim_Nil_conv blank_def)

lemma map_throwing_strings: "map_throwing ToString (map JStr ss) = Inr ss"
  by (induction ss) simp_all

lemma suggestions_of_strs:
  "map_throwing ToString entries = Inr strs \<Longrightarrow>
     suggestions_of entries = Inr (take 6 (filter (\<lambda>s. \<not> blank s) strs))"
  by (simp add: suggestions_of_def kept_conv)

text \<open>
  C9. For a parsed value with an array under \<^verbatim>\<open>suggestions\<close>: when every entry has
  a string form, the answer holds those forms without the blank ones, cut to the
  first six, in the order of the array; ten strings that are not blank give the
  first six of them. An entry whose conversion throws makes the handler answer 502.
\<close>

theorem C9_suggestions_filtered_and_truncated:
  assumes "safeParseJsonObjectFromText text = Some parsed"
    and "get_prop parsed ''suggestions'' = Some (JArr entries)"
  shows "(\<forall>strs. map_throwing ToString entries = Inr strs \<longrightarrow>
            suggest text = Suggestions (take 6 (filter (\<lambda>s. \<not> blank s) strs)))
       \<and> (\<forall>ss. entries = map JStr ss \<longrightarrow>
            suggest text = Suggestions (take 6 (filter (\<lambda>s. \<not> blank s) ss)))
       \<and> (\<forall>ss. entries = map JStr ss \<and> length ss = 10 \<and> (\<forall>s \<in> set ss. \<not> blank s) \<longrightarrow>
            suggest text = Suggestions (take 6 ss))
       \<and> (\<forall>e. map_throwing ToString entries = Inl e \<longrightarrow>
            suggest text = Failed 502 ''Gemini suggestions request failed'')"
proof (intro conjI allI impI)
  fix strs
  assume "map_throwing ToString entries = Inr strs"
  from suggestions_of_strs [OF this] assms
  show "suggest text = Suggestions (take 6 (filter (\<lambda>s. \<not> blank s) strs))"
    by (simp add: suggest_def)
next
  fix ss
  assume "entries = map JStr ss"
  then have "map_throwing ToString entries = Inr ss"
    by (simp add: map_throwing_strings)
  from suggestions_of_strs [OF this] assms
  show "suggest text = Suggestions (take 6 (filter (\<lambda>s. \<not> blank s) ss))"
    by (simp add: suggest_def)
next
  fix ss
  assume a: "entries = map JStr ss \<and> length ss = 10 \<and> (\<forall>s \<in> set ss. \<not> blank s)"
  then have "map_throwing ToString entries = Inr ss"
    by (simp add: map_throwing_strings)
  from suggestions_of_strs [OF this] assms
  have "suggest text = Suggestions (take 6 (filter (\<lambda>s. \<not> blank s) ss))"
    by (simp add: suggest_def)
  moreover from a have "filter (\<lambda>s. \<not> blank s) ss = ss"
    by (simp add: filter_id_conv)
  ultimately show "suggest text = Suggestions (take 6 ss)" by simp
next
  fix e
  assume "map_throwing ToString entries = Inl e"
  with assms show "suggest text = Failed 502 ''Gemini suggestions request failed''"
    by (simp add: suggest_def suggestions_of_def)
qed

theorem C9_witness:
  "safeParseJsonObjectFromText ''{\"suggestions\": [\"a\", \" \", 7, \"b\"]}'' =
     Some (JObj [(''suggestions'', JArr [JStr ''a'', JStr '' '', JNum (Fin 7), JStr ''b''])])
   \<and> map_throwing ToString [JStr ''a'', JStr '' '', JNum (Fin 7), JStr ''b''] =
       Inr [''a'', '' '', ''7'', ''b'']
   \<and> suggest ''{\"suggestions\": [\"a\", \" \", 7, \"b\"]}'' = Suggestions [''a'', ''7'', ''b'']"
proof -
  let ?text = "''{\"suggestions\": [\"a\", \" \", 7, \"b\"]}''"
  let ?entries = "[JStr ''a'', JStr '' '', JNum (Fin 7), JStr ''b'']"
  have h1: "safeParseJsonObjectFromText ?text = Some (JObj [(''suggestions'', JArr ?entries)])"
    by code_simp
  have h2: "get_prop (JObj [(''suggestions'', JArr ?entries)]) ''suggestions'' = Some (JArr ?entries)"
    by simp
  have h3: "map_throwing ToString ?entries = Inr [''a'', '' '', ''7'', ''b'']"
    by code_simp
  have f: "take 6 (filter (\<lambda>s. \<not> blank s) [''a'', '' '', ''7'', ''b'']) = [''a'', ''7'', ''b'']"
    by (simp add: blank_def is_js_ws_def)
  from C9_suggestions_filtered_and_truncated [OF h1 h2] h3
  have "suggest ?text = Suggestions (take 6 (filter (\<lambda>s. \<not> blank s) [''a'', '' '', ''7'', ''b'']))"
    by blast
  with h1 h3 f show ?thesis by simp
qed

section \<open>Properties of the Normalizer\<close>

lemma number_fields_lookup:
  "number_fields item ks = Inr fs \<Longrightarrow> k \<in> set ks \<Longrightarrow>
     \<exists>n. number_field item k = Inr n \<and> map_of fs k = Some (JNum n)"
proof (induction ks arbitrary: fs)
  case Nil
  then show ?case by simp
next
  case (Cons a ks)
  from Cons.prems(1) obtain n fs' where a: "number_field item a = Inr n"
    and fs': "number_fields item ks = Inr fs'" and fs: "fs = (a, JNum n) # fs'"
    by (auto split: sum.splits)
  show ?case
  proof (cases "k = a")
    case True
    with a fs show ?thesis by simp
  next
    case False
    with Cons.prems(2) have "k \<in> set ks" by simp
    from Cons.IH [OF fs' this] False fs show ?thesis by simp
  qed
qed

lemma normalized_keys_fresh:
  "k \<in> set normalized_keys \<Longrightarrow> k \<noteq> ''name'' \<and> k \<noteq> ''portion''"
  by (auto simp: normalized_keys_def)

lemma normalize_lookup:
  assumes "normalize query item = Inr r" and "k \<in> set normalized_keys"
  shows "\<exists>n. number_field item k = Inr n \<and> map_of r k = Some (JNum n)"
proof -
  from assms(1) obtain name portion fs where fs: "number_fields item normalized_keys = Inr fs"
    and r: "r = (''name'', JStr name) # (''portion'', JStr portion) # fs"
    by (auto simp: normalize_def split: sum.splits)
  from number_fields_lookup [OF fs assms(2)] normalized_keys_fresh [OF assms(2)] r
  show ?thesis by auto
qed

lemma number_field_cases:
  "number_field item k =
     (case get_prop item k of
        None \<Rightarrow> Inr (Fin 0)
      | Some v \<Rightarrow> if truthy v then ToNumber v else Inr (Fin 0))"
  by (simp add: number_field_def or_default_def split: option.splits)

text \<open>
  C1, as the code has it: \<^verbatim>\<open>Number(item.key || 0)\<close>. A numeric field of the record is
  \<open>0\<close> when the raw field is missing or falsy (\<^verbatim>\<open>null\<close>, \<^verbatim>\<open>false\<close>, \<open>0\<close>, NaN, the
  empty string), and otherwise the conversion \<^verbatim>\<open>Number\<close> of the raw value: the
  number itself for a number, the number a string spells, and NaN (not \<open>0\<close>) for a
  string that spells none.
\<close>

theorem C1_numeric_fields_of_normalize:
  assumes "normalize query item = Inr r" and "k \<in> set normalized_keys"
  shows "\<exists>n. map_of r k = Some (JNum n)
           \<and> (case get_prop item k of
                 None \<Rightarrow> n = Fin 0
               | Some v \<Rightarrow> if truthy v then ToNumber v = Inr n else n = Fin 0)
           \<and> (\<forall>x. get_prop item k = Some (JNum x) \<longrightarrow> n = (if x = NaN then Fin 0 else x))
           \<and> (\<forall>s. get_prop item k = Some (JStr s) \<longrightarrow>
                  n = (if s = [] then Fin 0 else StringToNumber s))"
proof -
  from normalize_lookup [OF assms] obtain n where nf: "number_field item k = Inr n"
    and m: "map_of r k = Some (JNum n)" by blast
  from nf have c: "case get_prop item k of
                 None \<Rightarrow> n = Fin 0
               | Some v \<Rightarrow> if truthy v then ToNumber v = Inr n else n = Fin 0"
    by (simp add: number_field_cases split: option.splits if_splits)
  have num: "n = (if x = NaN then Fin 0 else x)" if "get_prop item k = Some (JNum x)" for x
    using nf that by (cases x) (auto simp: number_field_cases split: if_splits)
  have str: "n = (if s = [] then Fin 0 else StringToNumber s)"
    if "get_prop item k = Some (JStr s)" for s
    using nf that by (auto simp: number_field_cases split: if_splits)
  from m c num str show ?thesis by blast
qed

theorem C1_witness:
  "normalize ''oats'' (JObj [(''calories'', JStr ''12.5'')]) =
     Inr [(''name'', JStr ''oats''), (''portion'', JStr ''1 serving (100g)''),
          (''calories'', JNum (Fin 12.5)), (''protein'', JNum (Fin 0)),
          (''carbs'', JNum (Fin 0)), (''fat'', JNum (Fin 0)), (''fiber'', JNum (Fin 0)),
          (''sugar'', JNum (Fin 0)), (''sodium'', JNum (Fin 0)), (''iron'', JNum (Fin 0)),
          (''zinc'', JNum (Fin 0)), (''calcium'', JNum (Fin 0)), (''vitaminB12'', JNum (Fin 0)),
          (''vitaminD'', JNum (Fin 0)), (''vitaminA'', JNum (Fin 0)), (''omega3'', JNum (Fin 0)),
          (''vitaminC'', JNum (Fin 0)), (''magnesium'', JNum (Fin 0)),
          (''potassium'', JNum (Fin 0))]
   \<and> ''calories'' \<in> set normalized_keys
   \<and> StringToNumber ''12.5'' = Fin 12.5"
proof -
  let ?item = "JObj [(''calories'', JStr ''12.5'')]"
  let ?r = "[(''name'', JStr ''oats''), (''portion'', JStr ''1 serving (100g)''),
          (''calories'', JNum (Fin 12.5)), (''protein'', JNum (Fin 0)),
          (''carbs'', JNum (Fin 0)), (''fat'', JNum (Fin 0)), (''fiber'', JNum (Fin 0)),
          (''sugar'', JNum (Fin 0)), (''sodium'', JNum (Fin 0)), (''iron'', JNum (Fin 0)),
          (''zinc'', JNum (Fin 0)), (''calcium'', JNum (Fin 0)), (''vitaminB12'', JNum (Fin 0)),
          (''vitaminD'', JNum (Fin 0)), (''vitaminA'', JNum (Fin 0)), (''omega3'', JNum (Fin 0)),
          (''vitaminC'', JNum (Fin 0)), (''magnesium'', JNum (Fin 0)),
          (''potassium'', JNum (Fin 0))]"
  have h: "normalize ''oats'' ?item = Inr ?r" by code_simp
  have k: "''calories'' \<in> set normalized_keys" by (simp add: normalized_keys_def)
  have g: "get_prop ?item ''calories'' = Some (JStr ''12.5'')" by simp
  from C1_numeric_fields_of_normalize [OF h k]
  obtain n where m: "map_of ?r ''calories'' = Some (JNum n)"
    and s: "\<forall>s. get_prop ?item ''calories'' = Some (JStr s) \<longrightarrow>
                  n = (if s = [] then Fin 0 else StringToNumber s)"
    by blast
  from s g have "n = StringToNumber ''12.5''" by simp
  moreover from m have "n = Fin 12.5" by simp
  ultimately have "StringToNumber ''12.5'' = Fin 12.5" by simp
  with h k show ?thesis by blast
qed

theorem C1_counterexample:
  "normalize ''oats'' (JObj [(''calories'', JStr ''abc'')]) =
     Inr [(''name'', JStr ''oats''), (''portion'', JStr ''1 serving (100g)''),
          (''calories'', JNum NaN), (''protein'', JNum (Fin 0)),
          (''carbs'', JNum (Fin 0)), (''fat'', JNum (Fin 0)), (''fiber'', JNum (Fin 0)),
          (''sugar'', JNum (Fin 0)), (''sodium'', JNum (Fin 0)), (''iron'', JNum (Fin 0)),
          (''zinc'', JNum (Fin 0)), (''calcium'', JNum (Fin 0)), (''vitaminB12'', JNum (Fin 0)),
          (''vitaminD'', JNum (Fin 0)), (''vitaminA'', JNum (Fin 0)), (''omega3'', JNum (Fin 0)),
          (''vitaminC'', JNum (Fin 0)), (''magnesium'', JNum (Fin 0)),
          (''potassium'', JNum (Fin 0))]
   \<and> JNum NaN \<noteq> JNum (Fin 0)"
  by code_simp

text \<open>
  C2, as the code has it. The seventeen numeric fields of a record are numbers,
  but no range is enforced: a finite number in the raw field, a negative one
  included, is the field of the record.
\<close>

theorem C2_numeric_fields_are_numbers_unchecked:
  assumes "normalize query item = Inr r" and "k \<in> set normalized_keys"
  shows "(\<exists>n. map_of r k = Some (JNum n))
       \<and> (\<forall>x. get_prop item k = Some (JNum (Fin x)) \<longrightarrow> map_of r k = Some (JNum (Fin x)))"
proof -
  from normalize_lookup [OF assms] obtain n where nf: "number_field item k = Inr n"
    and m: "map_of r k = Some (JNum n)" by blast
  have "n = Fin x" if "get_prop item k = Some (JNum (Fin x))" for x
    using nf that by (auto simp: number_field_cases split: if_splits)
  with m show ?thesis by blast
qed

theorem C2_witness:
  "normalize ''oats'' (JObj [(''iron'', JNum (Fin (- 2)))]) =
     Inr [(''name'', JStr ''oats''), (''portion'', JStr ''1 serving (100g)''),
          (''calories'', JNum (Fin 0)), (''protein'', JNum (Fin 0)),
          (''carbs'', JNum (Fin 0)), (''fat'', JNum (Fin 0)), (''fiber'', JNum (Fin 0)),
          (''sugar'', JNum (Fin 0)), (''sodium'', JNum (Fin 0)), (''iron'', JNum (Fin (- 2))),
          (''zinc'', JNum (Fin 0)), (''calcium'', JNum (Fin 0)), (''vitaminB12'', JNum (Fin 0)),
          (''vitaminD'', JNum (Fin 0)), (''vitaminA'', JNum (Fin 0)), (''omega3'', JNum (Fin 0)),
          (''vitaminC'', JNum (Fin 0)), (''magnesium'', JNum (Fin 0)),
          (''potassium'', JNum (Fin 0))]
   \<and> ''iron'' \<in> set normalized_keys"
proof -
  let ?item = "JObj [(''iron'', JNum (Fin (- 2)))]"
  let ?r = "[(''name'', JStr ''oats''), (''portion'', JStr ''1 serving (100g)''),
          (''calories'', JNum (Fin 0)), (''protein'', JNum (Fin 0)),
          (''carbs'', JNum (Fin 0)), (''fat'', JNum (Fin 0)), (''fiber'', JNum (Fin 0)),
          (''sugar'', JNum (Fin 0)), (''sodium'', JNum (Fin 0)), (''iron'', JNum (Fin (- 2))),
          (''zinc'', JNum (Fin 0)), (''calcium'', JNum (Fin 0)), (''vitaminB12'', JNum (Fin 0)),
          (''vitaminD'', JNum (Fin 0)), (''vitaminA'', JNum (Fin 0)), (''omega3'', JNum (Fin 0)),
          (''vitaminC'', JNum (Fin 0)), (''magnesium'', JNum (Fin 0)),
          (''potassium'', JNum (Fin 0))]"
  have h: "normalize ''oats'' ?item = Inr ?r" by code_simp
  have k: "''iron'' \<in> set normalized_keys" by (simp add: normalized_keys_def)
  from C2_numeric_fields_are_numbers_unchecked [OF h k]
  have "\<exists>n. map_of ?r ''iron'' = Some (JNum n)" by (rule conjunct1)
  with h k show ?thesis by blast
qed

theorem C2_counterexample:
  "normalize ''oats'' (JObj [(''calories'', JNum (Fin (- 5)))]) =
     Inr [(''name'', JStr ''oats''), (''portion'', JStr ''1 serving (100g)''),
          (''calories'', JNum (Fin (- 5))), (''protein'', JNum (Fin 0)),
          (''carbs'', JNum (Fin 0)), (''fat'', JNum (Fin 0)), (''fiber'', JNum (Fin 0)),
          (''sugar'', JNum (Fin 0)), (''sodium'', JNum (Fin 0)), (''iron'', JNum (Fin 0)),
          (''zinc'', JNum (Fin 0)), (''calcium'', JNum (Fin 0)), (''vitaminB12'', JNum (Fin 0)),
          (''vitaminD'', JNum (Fin 0)), (''vitaminA'', JNum (Fin 0)), (''omega3'', JNum (Fin 0)),
          (''vitaminC'', JNum (Fin 0)), (''magnesium'', JNum (Fin 0)),
          (''potassium'', JNum (Fin 0))]
   \<and> (- 5 :: real) < 0"
  by code_simp

section \<open>Properties of the Scaler\<close>
























section \<open>Properties of the parser that the extraction theorem uses\<close>

lemma skip_ws_split: "\<exists>w. s = w @ skip_ws s \<and> (\<forall>x \<in> set w. is_json_ws x)"
proof -
  have "s = takeWhile is_json_ws s @ skip_ws s" by (simp add: skip_ws_def)
  moreover have "\<forall>x \<in> set (takeWhile is_json_ws s). is_json_ws x"
    by (auto dest: set_takeWhileD)
  ultimately show ?thesis by blast
qed

lemma dropWhile_suffix: "\<exists>c. s = c @ dropWhile P s"
  by (metis takeWhile_dropWhile_id)

lemma unescape_suffix: "unescape s = Some (ch, r) \<Longrightarrow> \<exists>c. s = c @ r"
proof -
  assume u: "unescape s = Some (ch, r)"
  then obtain e t where s: "s = e # t" by (cases s) (simp_all add: unescape_def)
  show ?thesis
  proof (cases "e = CHR ''u''")
    case True
    with u s obtain h1 h2 h3 h4 where "t = h1 # h2 # h3 # h4 # r"
      by (auto simp: unescape_def Let_def split: list.splits option.splits if_splits)
    with s have "s = [e, h1, h2, h3, h4] @ r" by simp
    then show ?thesis ..
  next
    case False
    with u s have "r = t"
      by (auto simp: unescape_def split: option.splits)
    with s have "s = [e] @ r" by simp
    then show ?thesis ..
  qed
qed

lemma parse_str_suffix: "parse_str s acc = Some (str, r) \<Longrightarrow> \<exists>c. s = c @ r"
proof (induction s acc rule: parse_str.induct)
  case (1 acc)
  then show ?case by (simp add: parse_str.simps)
next
  case (2 c cs acc)
  show ?case
  proof (cases "c = CHR 0x22")
    case True
    with "2.prems" have "r = cs" by (simp add: parse_str.simps)
    then have "c # cs = [c] @ r" by simp
    then show ?thesis ..
  next
    case nq: False
    show ?thesis
    proof (cases "c = CHR 0x5C")
      case True
      with nq "2.prems" obtain ch r' where u: "unescape cs = Some (ch, r')"
        and p: "parse_str r' (acc @ [ch]) = Some (str, r)"
        by (auto simp: parse_str.simps split: option.splits)
      from "2.IH"(1) [OF nq True u refl p] obtain c1 where "r' = c1 @ r" ..
      moreover from unescape_suffix [OF u] obtain c2 where "cs = c2 @ r'" ..
      ultimately have "c # cs = (c # c2 @ c1) @ r" by simp
      then show ?thesis ..
    next
      case nb: False
      with nq "2.prems" have c32: "\<not> (of_char c :: nat) < 32"
        and p: "parse_str cs (acc @ [c]) = Some (str, r)"
        by (auto simp: parse_str.simps split: if_splits)
      from "2.IH"(2) [OF nq nb c32 p] obtain c1 where "cs = c1 @ r" ..
      then have "c # cs = (c # c1) @ r" by simp
      then show ?thesis ..
    qed
  qed
qed

lemma parse_fraction_suffix: "parse_fraction s = Some (fp, r) \<Longrightarrow> \<exists>c. s = c @ r"
proof -
  assume a: "parse_fraction s = Some (fp, r)"
  show ?thesis
  proof (cases s)
    case Nil
    with a show ?thesis by (simp add: parse_fraction_def)
  next
    case (Cons x t)
    show ?thesis
    proof (cases "x = CHR ''.''")
      case True
      with a Cons have "r = dropWhile is_digit t"
        by (auto simp: parse_fraction_def split: if_splits)
      with dropWhile_suffix [of t is_digit] obtain c where "t = c @ r" by auto
      with Cons have "s = (x # c) @ r" by simp
      then show ?thesis ..
    next
      case False
      with a Cons have "r = s" by (simp add: parse_fraction_def)
      then have "s = [] @ r" by simp
      then show ?thesis ..
    qed
  qed
qed

lemma parse_exponent_suffix: "parse_exponent s = Some (ex, r) \<Longrightarrow> \<exists>c. s = c @ r"
proof -
  assume a: "parse_exponent s = Some (ex, r)"
  show ?thesis
  proof (cases s)
    case Nil
    with a show ?thesis by (simp add: parse_exponent_def)
  next
    case (Cons x t)
    show ?thesis
    proof (cases "x = CHR ''e'' \<or> x = CHR ''E''")
      case True
      define t' where "t' = (case t of c # u \<Rightarrow> if c = CHR ''-'' \<or> c = CHR ''+'' then u else t | [] \<Rightarrow> t)"
      from a Cons True have "r = dropWhile is_digit t'"
        by (auto simp: parse_exponent_def Let_def t'_def split: if_splits)
      with dropWhile_suffix [of t' is_digit] obtain c where c: "t' = c @ r" by auto
      have "\<exists>d. t = d @ t'"
      proof (cases t)
        case Nil
        then show ?thesis by (simp add: t'_def)
      next
        case (Cons y u)
        then have "t' = u \<or> t' = t" by (simp add: t'_def)
        with Cons show ?thesis by (metis append_Cons append_Nil)
      qed
      then obtain d where "t = d @ t'" ..
      with c Cons have "s = (x # d @ c) @ r" by simp
      then show ?thesis ..
    next
      case False
      with a Cons have "r = s" by (auto simp: parse_exponent_def)
      then have "s = [] @ r" by simp
      then show ?thesis ..
    qed
  qed
qed

lemma parse_number_suffix: "parse_number s = Some (n, r) \<Longrightarrow> \<exists>c. s = c @ r"
proof -
  assume a: "parse_number s = Some (n, r)"
  define neg where "neg = (case s of c # _ \<Rightarrow> c = CHR ''-'' | [] \<Rightarrow> False)"
  define s1 where "s1 = (if neg then tl s else s)"
  from a obtain fp r2 ex where f: "parse_fraction (dropWhile is_digit s1) = Some (fp, r2)"
    and e: "parse_exponent r2 = Some (ex, r)"
    by (auto simp: parse_number_def Let_def neg_def s1_def split: if_splits option.splits)
  from parse_exponent_suffix [OF e] obtain c1 where c1: "r2 = c1 @ r" ..
  from parse_fraction_suffix [OF f] obtain c2 where c2: "dropWhile is_digit s1 = c2 @ r2" ..
  from dropWhile_suffix [of s1 is_digit] obtain c3 where c3: "s1 = c3 @ dropWhile is_digit s1" ..
  have "\<exists>c4. s = c4 @ s1"
  proof (cases neg)
    case True
    then have "s \<noteq> []" by (auto simp: neg_def)
    with True have "s = [hd s] @ s1" by (simp add: s1_def)
    then show ?thesis ..
  next
    case False
    then have "s = [] @ s1" by (simp add: s1_def)
    then show ?thesis ..
  qed
  then obtain c4 where "s = c4 @ s1" ..
  with c1 c2 c3 have "s = (c4 @ c3 @ c2 @ c1) @ r" by simp
  then show ?thesis ..
qed

text \<open>
  What a successful parse has read: the rest is a suffix of the input; an array
  starts at a \<^verbatim>\<open>[\<close> behind white space and ends just before the rest with a
  \<^verbatim>\<open>]\<close>; what the members of an object give is no array.
\<close>

lemma parser_shape:
  "(\<forall>v r. parse_value s = Some (v, r) \<longrightarrow>
      (\<exists>c. s = c @ r)
      \<and> (\<forall>a. v = JArr a \<longrightarrow>
            (\<exists>t. skip_ws s = CHR ''['' # t) \<and> (\<exists>c. s = c @ CHR '']'' # r)))
   \<and> (\<forall>acc v r. parse_elems s acc = Some (v, r) \<longrightarrow> (\<exists>c. s = c @ CHR '']'' # r))
   \<and> (\<forall>acc v r. parse_members s acc = Some (v, r) \<longrightarrow>
         (\<exists>c. s = c @ r) \<and> (\<forall>a. v \<noteq> JArr a))"
proof (induction "length s" arbitrary: s rule: less_induct)
  case less
  have ih_elems: "\<exists>c. s' = c @ CHR '']'' # r"
    if "length s' < length s" "parse_elems s' acc = Some (v, r)" for s' acc v r
    by (rule less [OF that(1), THEN conjunct2, THEN conjunct1, THEN spec, THEN spec, THEN spec,
          THEN mp, OF that(2)])
  have ih_members: "(\<exists>c. s' = c @ r) \<and> (\<forall>a. v \<noteq> JArr a)"
    if "length s' < length s" "parse_members s' acc = Some (v, r)" for s' acc v r
    by (rule less [OF that(1), THEN conjunct2, THEN conjunct2, THEN spec, THEN spec, THEN spec,
          THEN mp, OF that(2)])
  have ih_value: "\<exists>c. s' = c @ r"
    if "length s' < length s" "parse_value s' = Some (v, r)" for s' v r
    by (rule less [OF that(1), THEN conjunct1, THEN spec, THEN spec, THEN mp, OF that(2),
          THEN conjunct1])

  have shape_value: "(\<exists>c. s = c @ r)
      \<and> (\<forall>a. v = JArr a \<longrightarrow>
            (\<exists>t. skip_ws s = CHR ''['' # t) \<and> (\<exists>c. s = c @ CHR '']'' # r))"
    if a: "parse_value s = Some (v, r)" for v r
  proof -
    note a' = a [unfolded parse_value.simps [of s]]
    from a' obtain c0 r0 where sk: "skip_ws s = c0 # r0"
      by (cases "skip_ws s") simp_all
    from skip_ws_split [of s] sk obtain w where w: "s = w @ c0 # r0" by auto
    from skip_ws_Cons_length [OF sk] have len: "length r0 < length s" .
    show ?thesis
    proof (cases "c0 = CHR ''[''")
      case True
      from a' sk True obtain d r' where sk2: "skip_ws r0 = d # r'"
        by (cases "skip_ws r0") simp_all
      from skip_ws_split [of r0] sk2 obtain w' where w': "r0 = w' @ d # r'" by auto
      have "\<exists>c. s = c @ CHR '']'' # r"
      proof (cases "d = CHR '']''")
        case d: True
        with a' sk True sk2 have "r = r'" by simp
        with w w' d have "s = (w @ c0 # w') @ CHR '']'' # r" by simp
        then show ?thesis ..
      next
        case False
        with a' sk True sk2 have "parse_elems r0 [] = Some (v, r)"
          by simp
        from ih_elems [OF len this] obtain c where "r0 = c @ CHR '']'' # r" ..
        with w have "s = (w @ c0 # c) @ CHR '']'' # r" by simp
        then show ?thesis ..
      qed
      moreover from this obtain c where "s = c @ CHR '']'' # r" ..
      then have "s = (c @ [CHR '']'']) @ r" by simp
      then have "\<exists>c. s = c @ r" ..
      ultimately show ?thesis using sk True by blast
    next
      case na: False
      have "(\<exists>c. s = c @ r) \<and> (\<forall>a. v \<noteq> JArr a)"
      proof (cases "c0 = CHR ''{''")
        case True
        from a' sk True obtain d r' where sk2: "skip_ws r0 = d # r'"
          by (cases "skip_ws r0") simp_all
        from skip_ws_split [of r0] sk2 obtain w' where w': "r0 = w' @ d # r'" by auto
        show ?thesis
        proof (cases "d = CHR ''}''")
          case d: True
          with a' sk True sk2 have "r = r'" "v = JObj []" by simp_all
          moreover from w w' have "s = (w @ c0 # w' @ [d]) @ r'" by simp
          ultimately show ?thesis by blast
        next
          case False
          with a' sk True sk2 have "parse_members r0 [] = Some (v, r)"
            by simp
          from ih_members [OF len this] obtain c where "r0 = c @ r" and nv: "\<forall>a. v \<noteq> JArr a"
            by blast
          with w have "s = (w @ c0 # c) @ r" by simp
          with nv show ?thesis by blast
        qed
      next
        case no: False
        show ?thesis
        proof (cases "c0 = CHR 0x22")
          case True
          with a' sk na no obtain str where p: "parse_str r0 [] = Some (str, r)" and v: "v = JStr str"
            by (auto split: option.splits)
          from parse_str_suffix [OF p] obtain c where "r0 = c @ r" ..
          with w have "s = (w @ c0 # c) @ r" by simp
          with v show ?thesis by blast
        next
          case ns: False
          from a' sk na no ns consider
              (t) "v = JBool True" "r = drop 3 r0"
            | (f) "v = JBool False" "r = drop 4 r0"
            | (n) "v = JNull" "r = drop 3 r0"
            | (num) x where "parse_number (c0 # r0) = Some (x, r)" "v = JNum x"
            by (auto split: if_splits option.splits)
          then show ?thesis
          proof cases
            case t
            have "r0 = take 3 r0 @ drop 3 r0" by simp
            with w t(2) have "s = (w @ c0 # take 3 r0) @ r" by simp
            with t(1) show ?thesis by blast
          next
            case f
            have "r0 = take 4 r0 @ drop 4 r0" by simp
            with w f(2) have "s = (w @ c0 # take 4 r0) @ r" by simp
            with f(1) show ?thesis by blast
          next
            case n
            have "r0 = take 3 r0 @ drop 3 r0" by simp
            with w n(2) have "s = (w @ c0 # take 3 r0) @ r" by simp
            with n(1) show ?thesis by blast
          next
            case num
            from parse_number_suffix [OF num(1)] obtain c where "c0 # r0 = c @ r" ..
            with w have "s = (w @ c) @ r" by simp
            with num(2) show ?thesis by blast
          qed
        qed
      qed
      then show ?thesis by blast
    qed
  qed

  have shape_elems: "\<exists>c. s = c @ CHR '']'' # r" if a: "parse_elems s acc = Some (v, r)" for acc v r
  proof -
    note a' = a [unfolded parse_elems.simps [of s acc]]
    from a' obtain v1 r1 where pv: "parse_value s = Some (v1, r1)"
      by (cases "parse_value s") auto
    from a' pv have len: "length r1 < length s"
      by (auto split: if_splits)
    from shape_value [OF pv] obtain c1 where c1: "s = c1 @ r1" by blast
    from a' pv len obtain d r' where sk: "skip_ws r1 = d # r'"
      by (cases "skip_ws r1") auto
    from skip_ws_split [of r1] sk obtain w where w: "r1 = w @ d # r'" by auto
    from skip_ws_Cons_length [OF sk] len have len': "length r' < length s" by simp
    show ?thesis
    proof (cases "d = CHR '',''")
      case True
      with a' pv len sk have "parse_elems r' (acc @ [v1]) = Some (v, r)"
        by simp
      from ih_elems [OF len' this] obtain c where "r' = c @ CHR '']'' # r" ..
      with c1 w have "s = (c1 @ w @ d # c) @ CHR '']'' # r" by simp
      then show ?thesis ..
    next
      case False
      with a' pv len sk have "d = CHR '']''" "r = r'"
        by (auto split: if_splits)
      with c1 w have "s = (c1 @ w) @ CHR '']'' # r" by simp
      then show ?thesis ..
    qed
  qed

  have shape_members: "(\<exists>c. s = c @ r) \<and> (\<forall>a. v \<noteq> JArr a)"
    if a: "parse_members s acc = Some (v, r)" for acc v r
  proof -
    note a' = a [unfolded parse_members.simps [of s acc]]
    from a' obtain q r0 where sk: "skip_ws s = q # r0"
      by (cases "skip_ws s") simp_all
    from skip_ws_split [of s] sk obtain w where w: "s = w @ q # r0" by auto
    from a' sk have q: "q = CHR 0x22"
      by (auto split: if_splits)
    from a' sk q obtain k r1 where ps: "parse_str r0 [] = Some (k, r1)"
      by (cases "parse_str r0 []") auto
    from parse_str_suffix [OF ps] obtain c1 where c1: "r0 = c1 @ r1" ..
    from a' sk q ps obtain col r2 where sk1: "skip_ws r1 = col # r2"
      by (cases "skip_ws r1") auto
    from skip_ws_split [of r1] sk1 obtain w1 where w1: "r1 = w1 @ col # r2" by auto
    from a' sk q ps sk1 have col: "col = CHR '':''"
      by (auto split: if_splits)
    from a' sk q ps sk1 col obtain v1 r3 where pv: "parse_value r2 = Some (v1, r3)"
      by (cases "parse_value r2") auto
    from a' sk q ps sk1 col pv have len3: "length r3 < length r2"
      by (auto split: if_splits)
    from w c1 w1 have len2: "length r2 < length s" by simp
    from ih_value [OF len2 pv] obtain c3 where c3: "r2 = c3 @ r3" ..
    from a' sk q ps sk1 col pv len3 obtain d r4 where sk3: "skip_ws r3 = d # r4"
      by (cases "skip_ws r3") auto
    from skip_ws_split [of r3] sk3 obtain w3 where w3: "r3 = w3 @ d # r4" by auto
    from skip_ws_Cons_length [OF sk3] len3 len2 have len4: "length r4 < length s" by simp
    have s4: "s = (w @ q # c1 @ w1 @ col # c3 @ w3 @ [d]) @ r4"
      using w c1 w1 c3 w3 by simp
    show ?thesis
    proof (cases "d = CHR '',''")
      case True
      with a' sk q ps sk1 col pv len3 sk3
      have "parse_members r4 (obj_put acc k v1) = Some (v, r)"
        by simp
      from ih_members [OF len4 this] obtain c where "r4 = c @ r" and nv: "\<forall>a. v \<noteq> JArr a"
        by blast
      with s4 have "s = (w @ q # c1 @ w1 @ col # c3 @ w3 @ [d] @ c) @ r" by simp
      with nv show ?thesis by blast
    next
      case False
      with a' sk q ps sk1 col pv len3 sk3 have "r = r4" "v = JObj (obj_put acc k v1)"
        by (auto split: if_splits)
      with s4 show ?thesis by blast
    qed
  qed
  have A: "\<forall>v r. parse_value s = Some (v, r) \<longrightarrow>
      (\<exists>c. s = c @ r)
      \<and> (\<forall>a. v = JArr a \<longrightarrow>
            (\<exists>t. skip_ws s = CHR ''['' # t) \<and> (\<exists>c. s = c @ CHR '']'' # r))"
    by (intro allI impI) (rule shape_value)
  have B: "\<forall>acc v r. parse_elems s acc = Some (v, r) \<longrightarrow> (\<exists>c. s = c @ CHR '']'' # r)"
    by (intro allI impI) (rule shape_elems)
  have C: "\<forall>acc v r. parse_members s acc = Some (v, r) \<longrightarrow>
         (\<exists>c. s = c @ r) \<and> (\<forall>a. v \<noteq> JArr a)"
    by (intro allI impI) (rule shape_members)
  show ?case by (rule conjI [OF A conjI [OF B C]])
qed

lemma JSON_parse_array_shape:
  assumes "JSON_parse s = Some (JArr a)"
  shows "\<exists>t. skip_ws s = CHR ''['' # t"
    and "\<exists>c r. s = c @ CHR '']'' # r \<and> (\<forall>x \<in> set r. is_json_ws x)"
proof -
  from assms obtain r where pv: "parse_value s = Some (JArr a, r)" and r: "skip_ws r = []"
    by (auto simp: JSON_parse_def split: option.splits if_splits)
  note sh = parser_shape [of s, THEN conjunct1, THEN spec, THEN spec, THEN mp, OF pv,
      THEN conjunct2, THEN spec, THEN mp, OF refl]
  from sh have 1: "\<exists>t. skip_ws s = CHR ''['' # t" by (rule conjunct1)
  from sh have 2: "\<exists>c. s = c @ CHR '']'' # r" by (rule conjunct2)
  from 1 show "\<exists>t. skip_ws s = CHR ''['' # t" .
  from r have "\<forall>x \<in> set r. is_json_ws x" by (simp add: skip_ws_def)
  with 2 show "\<exists>c r. s = c @ CHR '']'' # r \<and> (\<forall>x \<in> set r. is_json_ws x)" by blast
qed

lemma parse_number_length: "parse_number s = Some (n, r) \<Longrightarrow> length r < length s"
proof -
  assume a: "parse_number s = Some (n, r)"
  define neg where "neg = (case s of c # _ \<Rightarrow> c = CHR ''-'' | [] \<Rightarrow> False)"
  define s1 where "s1 = (if neg then tl s else s)"
  from a have ip: "takeWhile is_digit s1 \<noteq> []"
    by (auto simp: parse_number_def Let_def neg_def s1_def split: if_splits)
  from a obtain fp r2 ex where f: "parse_fraction (dropWhile is_digit s1) = Some (fp, r2)"
    and e: "parse_exponent r2 = Some (ex, r)"
    by (auto simp: parse_number_def Let_def neg_def s1_def split: if_splits option.splits)
  from parse_exponent_suffix [OF e] have 1: "length r \<le> length r2" by auto
  from parse_fraction_suffix [OF f] have 2: "length r2 \<le> length (dropWhile is_digit s1)" by auto
  have "length s1 = length (takeWhile is_digit s1) + length (dropWhile is_digit s1)"
    by (metis length_append takeWhile_dropWhile_id)
  with ip have 3: "length (dropWhile is_digit s1) < length s1"
    by (cases "takeWhile is_digit s1") simp_all
  have 4: "length s1 \<le> length s" by (simp add: s1_def)
  from 1 2 3 4 show ?thesis by simp
qed

text \<open>
  A value is never empty: the tests \<open>length r < length s\<close> in \<open>parse_elems\<close> and
  \<open>parse_members\<close> always hold.
\<close>

lemma parse_value_consumes: "parse_value s = Some (v, r) \<Longrightarrow> length r < length s"
proof -
  assume a: "parse_value s = Some (v, r)"
  note a' = a [unfolded parse_value.simps [of s]]
  from a' obtain c0 r0 where sk: "skip_ws s = c0 # r0"
    by (cases "skip_ws s") simp_all
  from skip_ws_Cons_length [OF sk] have len: "length r0 < length s" .
  from skip_ws_split [of s] sk obtain w where w: "s = w @ c0 # r0" by auto
  show ?thesis
  proof (cases "c0 = CHR ''[''")
    case True
    from a' sk True obtain d r' where sk2: "skip_ws r0 = d # r'"
      by (cases "skip_ws r0") simp_all
    show ?thesis
    proof (cases "d = CHR '']''")
      case d: True
      with a' sk True sk2 have "r = r'" by simp
      with skip_ws_Cons_length [OF sk2] len show ?thesis by simp
    next
      case False
      with a' sk True sk2 have "parse_elems r0 [] = Some (v, r)" by simp
      with parser_shape [of r0] obtain c where "r0 = c @ CHR '']'' # r" by blast
      with len show ?thesis by simp
    qed
  next
    case na: False
    show ?thesis
    proof (cases "c0 = CHR ''{''")
      case True
      from a' sk True obtain d r' where sk2: "skip_ws r0 = d # r'"
        by (cases "skip_ws r0") simp_all
      show ?thesis
      proof (cases "d = CHR ''}''")
        case d: True
        with a' sk True sk2 have "r = r'" by simp
        with skip_ws_Cons_length [OF sk2] len show ?thesis by simp
      next
        case False
        with a' sk True sk2 have "parse_members r0 [] = Some (v, r)" by simp
        with parser_shape [of r0] obtain c where "r0 = c @ r" by blast
        with len show ?thesis by simp
      qed
    next
      case no: False
      show ?thesis
      proof (cases "c0 = CHR 0x22")
        case True
        with a' sk na no obtain str where "parse_str r0 [] = Some (str, r)"
          by (auto split: option.splits)
        from parse_str_length [OF this] len show ?thesis by simp
      next
        case ns: False
        from a' sk na no ns consider
            (lit) "r = drop 3 r0 \<or> r = drop 4 r0"
          | (num) x where "parse_number (c0 # r0) = Some (x, r)"
          by (auto split: if_splits option.splits)
        then show ?thesis
        proof cases
          case lit
          with len show ?thesis by auto
        next
          case num
          from parse_number_length [OF num] w show ?thesis by simp
        qed
      qed
    qed
  qed
qed

lemma fence_head: "take 3 (c # cs) = fence \<Longrightarrow> c = CHR ''`''"
  by (cases cs) (auto simp: fence_def split: if_splits)

lemma strip_fence_open_append:
  "CHR ''`'' \<notin> set a \<Longrightarrow> strip_fence_open (a @ s) = a @ strip_fence_open s"
proof (induction a)
  case Nil
  then show ?case by simp
next
  case (Cons c a)
  then have "take 3 (c # a @ s) \<noteq> fence" using fence_head [of c "a @ s"] by auto
  with Cons show ?case by (simp add: strip_fence_open.simps)
qed

lemma strip_fence_open_id: "CHR ''`'' \<notin> set s \<Longrightarrow> strip_fence_open s = s"
  using strip_fence_open_append [of s "[]"] by (simp add: strip_fence_open.simps)

lemma strip_fence_close_id: "CHR ''`'' \<notin> set s \<Longrightarrow> strip_fence_close s = s"
proof (induction s)
  case Nil
  then show ?case by (simp add: strip_fence_close.simps)
next
  case (Cons c s)
  then have "take 3 (c # s) \<noteq> fence" using fence_head [of c s] by auto
  with Cons show ?case by (simp add: strip_fence_close.simps)
qed

lemma strip_fence_open_fence:
  "strip_fence_open (fence @ s) = strip_fence_open (skip_newline (dropWhile is_letter s))"
  by (simp add: fence_def strip_fence_open.simps)

lemma newline_props: "\<not> is_letter newline" "newline \<noteq> CHR ''`''" "newline \<noteq> CHR '']''"
  by (simp_all add: newline_def is_letter_def lower_chars_def upper_chars_def)

lemma set_skip_newline: "set (skip_newline s) \<subseteq> set s"
  by (cases s) (auto simp: skip_newline_def)

text \<open>What \<^verbatim>\<open>stripCodeFences\<close> leaves of the two wrappings, before the trim.\<close>

lemma strip_fenced:
  assumes lang: "\<forall>c \<in> set lang. is_letter c"
    and b: "CHR ''`'' \<notin> set before" and j: "CHR ''`'' \<notin> set json"
    and a: "CHR ''`'' \<notin> set after"
  shows "strip_fence_close (strip_fence_open (fence_wrap before lang json after)) =
           before @ json @ newline # skip_newline (dropWhile is_letter after)"
proof -
  let ?a' = "skip_newline (dropWhile is_letter after)"
  have sa: "set ?a' \<subseteq> set after"
    using set_skip_newline [of "dropWhile is_letter after"] set_dropWhileD [of _ is_letter after]
    by blast
  with a have a': "CHR ''`'' \<notin> set ?a'" by blast
  have dl: "dropWhile is_letter (lang @ newline # json @ newline # fence @ after) =
              newline # json @ newline # fence @ after"
    using lang newline_props(1) by (simp add: dropWhile_append2)
  have 1: "strip_fence_open (fence @ lang @ newline # json @ newline # fence @ after) =
             strip_fence_open (json @ newline # fence @ after)"
    by (simp only: strip_fence_open_fence dl) (simp add: skip_newline_def)
  have jn: "CHR ''`'' \<notin> set (json @ [newline])"
    using j newline_props(2) by auto
  have 2: "strip_fence_open (json @ newline # fence @ after) =
             (json @ [newline]) @ strip_fence_open (fence @ after)"
    using strip_fence_open_append [OF jn, of "fence @ after"] by simp
  have 3: "strip_fence_open (fence @ after) = ?a'"
    by (simp only: strip_fence_open_fence strip_fence_open_id [OF a'])
  have "strip_fence_open (fence_wrap before lang json after) =
          before @ strip_fence_open (fence @ lang @ newline # json @ newline # fence @ after)"
    using strip_fence_open_append [OF b] by (simp add: fence_wrap_def)
  with 1 2 3 have o: "strip_fence_open (fence_wrap before lang json after) =
          before @ json @ newline # ?a'"
    by simp
  have "CHR ''`'' \<notin> set (before @ json @ newline # ?a')"
    using b j a' newline_props(2) by auto
  from strip_fence_close_id [OF this] o show ?thesis by simp
qed

lemma dropWhile_keep:
  assumes "J \<noteq> []" and "\<not> P (hd J)"
  shows "dropWhile P (B @ J @ A) = dropWhile P B @ J @ A"
proof (cases "\<forall>x \<in> set B. P x")
  case True
  then have b: "dropWhile P B = []" by simp
  from assms have j: "dropWhile P (J @ A) = J @ A" by (cases J) simp_all
  from True have "dropWhile P (B @ (J @ A)) = dropWhile P (J @ A)"
    by (intro dropWhile_append2) simp
  then show ?thesis unfolding b j by simp
next
  case False
  then obtain x where "x \<in> set B" "\<not> P x" by blast
  then show ?thesis by (rule dropWhile_append1)
qed

lemma trim_middle:
  assumes "J \<noteq> []" and "\<not> is_js_ws (hd J)" and "\<not> is_js_ws (last J)"
  shows "trim (B @ J @ A) = dropWhile is_js_ws B @ J @ rev (dropWhile is_js_ws (rev A))"
proof -
  have 1: "dropWhile is_js_ws (B @ J @ A) = dropWhile is_js_ws B @ J @ A"
    using assms(1,2) by (rule dropWhile_keep)
  have rj: "rev J \<noteq> []" "\<not> is_js_ws (hd (rev J))"
    using assms(1,3) by (simp_all add: hd_rev)
  have "dropWhile is_js_ws (rev A @ rev J @ rev (dropWhile is_js_ws B)) =
          dropWhile is_js_ws (rev A) @ rev J @ rev (dropWhile is_js_ws B)"
    using rj by (rule dropWhile_keep)
  with 1 show ?thesis by (simp add: trim_def)
qed

lemma indexOf_first: "c \<notin> set xs \<Longrightarrow> indexOf (xs @ c # ys) c = Some (length xs)"
  by (induction xs) auto

lemma lastIndexOf_last: "c \<notin> set ys \<Longrightarrow> lastIndexOf (xs @ c # ys) c = Some (length xs)"
  using indexOf_first [of c "rev ys" "rev xs"] by (simp add: lastIndexOf_def)

lemma json_ws_is_js_ws: "is_json_ws c \<Longrightarrow> is_js_ws c"
  by (auto simp: is_json_ws_def is_js_ws_def)

lemma JSON_parse_Nil: "JSON_parse [] = None"
  by (simp add: JSON_parse_def parse_value.simps skip_ws_def)

lemma substring_middle: "substring (xs @ ys @ zs) (length xs) (length xs + length ys) = ys"
proof -
  have "min (length xs) (length (xs @ ys @ zs)) = length xs" by simp
  moreover have "min (length xs + length ys) (length (xs @ ys @ zs)) = length xs + length ys"
    by simp
  ultimately show ?thesis
    unfolding substring_def Let_def by simp
qed

text \<open>
  The two attempts of the array extractor on a cleaned text that holds the literal
  \<open>J\<close> between a part without \<^verbatim>\<open>[\<close> and a part without \<^verbatim>\<open>]\<close>.
\<close>

lemma extract_core:
  assumes p: "JSON_parse J = Some (JArr a)"
    and h: "hd J = CHR ''[''" and l: "last J = CHR '']''"
    and b: "CHR ''['' \<notin> set B" and a: "CHR '']'' \<notin> set A"
  shows "(case try_parse isArray (trim (B @ J @ A)) of
            Some parsed \<Rightarrow> Some parsed
          | None \<Rightarrow>
              (case bracket_slice (trim (B @ J @ A)) (CHR ''['') (CHR '']'') of
                 None \<Rightarrow> None
               | Some slice \<Rightarrow> try_parse isArray slice)) = Some (JArr a)"
proof -
  let ?B = "dropWhile is_js_ws B" and ?A = "rev (dropWhile is_js_ws (rev A))"
  let ?c = "?B @ J @ ?A"
  from p have ne: "J \<noteq> []" by (auto simp: JSON_parse_Nil)
  from ne h obtain J0 where J0: "J = CHR ''['' # J0" by (cases J) auto
  from ne l have J1: "J = butlast J @ [CHR '']'']" by (metis append_butlast_last_id)
  from J0 J1 have len: "2 \<le> length J" by (cases J0) auto
  have ws: "\<not> is_js_ws (hd J)" "\<not> is_js_ws (last J)"
    using h l by (simp_all add: is_js_ws_def)
  from trim_middle [OF ne ws] have c: "trim (B @ J @ A) = ?c" .
  have sB: "set ?B \<subseteq> set B" by (auto dest: set_dropWhileD)
  have sA: "set ?A \<subseteq> set A" by (auto dest: set_dropWhileD)
  from b sB have b': "CHR ''['' \<notin> set ?B" by blast
  from a sA have a': "CHR '']'' \<notin> set ?A" by blast
  have "?c = ?B @ CHR ''['' # (J0 @ ?A)" using J0 by simp
  with indexOf_first [OF b'] have i: "indexOf ?c (CHR ''['') = Some (length ?B)"
    by metis
  have "?c = (?B @ butlast J) @ CHR '']'' # ?A" using J1 by (metis append.assoc append_Cons append_Nil)
  with lastIndexOf_last [OF a'] have "lastIndexOf ?c (CHR '']'') = Some (length (?B @ butlast J))"
    by metis
  then have li: "lastIndexOf ?c (CHR '']'') = Some (length ?B + length J - 1)"
    using len by simp
  from len have "length ?B + length J - 1 + 1 = length ?B + length J" by simp
  with substring_middle [of ?B J ?A]
  have sub: "substring ?c (length ?B) (length ?B + length J - 1 + 1) = J"
    by simp
  from i li len sub have bs: "bracket_slice ?c (CHR ''['') (CHR '']'') = Some J"
    by (simp add: bracket_slice_def)
  from p have tj: "try_parse isArray J = Some (JArr a)" by (simp add: try_parse_def)
  show ?thesis
  proof (cases "try_parse isArray ?c")
    case None
    with bs tj c show ?thesis by simp
  next
    case (Some v)
    from try_parse_Some [OF Some] obtain a' where v: "v = JArr a'"
      and pc: "JSON_parse ?c = Some (JArr a')"
      by (cases v) auto
    have Bn: "?B = []"
    proof (rule ccontr)
      assume n: "?B \<noteq> []"
      then have nw: "\<not> is_js_ws (hd ?B)" by (rule hd_dropWhile)
      then have "\<not> is_json_ws (hd ?c)" using n json_ws_is_js_ws by auto
      with n have "skip_ws ?c = ?c" by (cases ?c) (auto simp: skip_ws_def)
      with JSON_parse_array_shape(1) [OF pc] obtain t where "?c = CHR ''['' # t" by auto
      with n have "hd ?B = CHR ''[''" by (metis hd_append2 list.sel(1))
      with n b' show False by (metis hd_in_set)
    qed
    have An: "?A = []"
    proof (rule ccontr)
      assume n: "?A \<noteq> []"
      then have dn: "dropWhile is_js_ws (rev A) \<noteq> []" by simp
      then have "\<not> is_js_ws (hd (dropWhile is_js_ws (rev A)))" by (rule hd_dropWhile)
      with dn have nw: "\<not> is_js_ws (last ?A)" by (simp add: last_rev)
      from n have lc: "last ?c = last ?A" by simp
      from JSON_parse_array_shape(2) [OF pc] obtain c0 r
        where cr: "?c = c0 @ CHR '']'' # r" and r: "\<forall>x \<in> set r. is_json_ws x" by blast
      show False
      proof (cases "r = []")
        case True
        with cr have "last ?c = CHR '']''" by (metis last_snoc)
        with lc n a' show False by (metis last_in_set)
      next
        case False
        with cr have "last ?c = last r" by (metis last_appendR last_ConsR list.distinct(1))
        moreover from False r have "is_json_ws (last r)" by simp
        ultimately show False using lc nw json_ws_is_js_ws by metis
      qed
    qed
    have "?c = J" unfolding Bn An by simp
    with pc p have "a' = a" by simp
    with Some v c show ?thesis by simp
  qed
qed

text \<open>
  C4, as the code has it. The literal is found again when nothing around it can
  be mistaken for its ends, and the removal of fences cannot touch it: the literal
  starts with \<^verbatim>\<open>[\<close>, ends with \<^verbatim>\<open>]\<close> and holds no backtick; the prose before
  it holds no \<^verbatim>\<open>[\<close> and no backtick, the prose behind it no \<^verbatim>\<open>]\<close> and no
  backtick. Then the extractor returns what \<^verbatim>\<open>JSON.parse\<close> gives for the literal,
  with the prose alone around it and with a fenced code block between the prose
  and it.
\<close>

theorem C4_extraction_of_a_wrapped_array:
  assumes p: "JSON_parse json = Some (JArr a)"
    and h: "hd json = CHR ''[''" and l: "last json = CHR '']''"
    and jt: "CHR ''`'' \<notin> set json"
    and b: "CHR ''['' \<notin> set before" and bt: "CHR ''`'' \<notin> set before"
    and af: "CHR '']'' \<notin> set after" and aft: "CHR ''`'' \<notin> set after"
    and lang: "\<forall>c \<in> set lang. is_letter c"
  shows "safeParseJsonArrayFromText (before @ json @ after) = JSON_parse json
       \<and> safeParseJsonArrayFromText (fence_wrap before lang json after) = JSON_parse json"
proof
  from p have ne: "json \<noteq> []" by (auto simp: JSON_parse_Nil)
  have nt: "CHR ''`'' \<notin> set (before @ json @ after)" using jt bt aft by simp
  have "stripCodeFences (before @ json @ after) = trim (before @ json @ after)"
    using ne by (simp add: stripCodeFences_def strip_fence_open_id [OF nt]
        strip_fence_close_id [OF nt])
  with extract_core [OF p h l b af] p
  show "safeParseJsonArrayFromText (before @ json @ after) = JSON_parse json"
    by (simp add: safeParseJsonArrayFromText_def)
next
  let ?a = "newline # skip_newline (dropWhile is_letter after)"
  from p have ne: "json \<noteq> []" by (auto simp: JSON_parse_Nil)
  have "set (skip_newline (dropWhile is_letter after)) \<subseteq> set after"
    using set_skip_newline [of "dropWhile is_letter after"] set_dropWhileD [of _ is_letter after]
    by blast
  with af newline_props(3) have a': "CHR '']'' \<notin> set ?a" by auto
  have "fence_wrap before lang json after \<noteq> []" using ne by (simp add: fence_wrap_def)
  with strip_fenced [OF lang bt jt aft]
  have "stripCodeFences (fence_wrap before lang json after) = trim (before @ json @ ?a)"
    by (simp add: stripCodeFences_def)
  with extract_core [OF p h l b a'] p
  show "safeParseJsonArrayFromText (fence_wrap before lang json after) = JSON_parse json"
    by (simp add: safeParseJsonArrayFromText_def)
qed

theorem C4_witness:
  "JSON_parse ''[1, 2]'' = Some (JArr [JNum (Fin 1), JNum (Fin 2)])
   \<and> safeParseJsonArrayFromText (''Here you go: '' @ ''[1, 2]'' @ '' Hope this helps!'') =
       Some (JArr [JNum (Fin 1), JNum (Fin 2)])
   \<and> safeParseJsonArrayFromText (fence_wrap ''Here you go: '' ''json'' ''[1, 2]'' '' Hope this helps!'') =
       Some (JArr [JNum (Fin 1), JNum (Fin 2)])"
proof -
  have p: "JSON_parse ''[1, 2]'' = Some (JArr [JNum (Fin 1), JNum (Fin 2)])" by code_simp
  have h: "hd ''[1, 2]'' = CHR ''[''" and l: "last ''[1, 2]'' = CHR '']''" by simp_all
  have jt: "CHR ''`'' \<notin> set ''[1, 2]''" by simp
  have b: "CHR ''['' \<notin> set ''Here you go: ''" and bt: "CHR ''`'' \<notin> set ''Here you go: ''"
    by simp_all
  have af: "CHR '']'' \<notin> set '' Hope this helps!''" and aft: "CHR ''`'' \<notin> set '' Hope this helps!''"
    by simp_all
  have lang: "\<forall>c \<in> set ''json''. is_letter c"
    by (simp add: is_letter_def lower_chars_def upper_chars_def)
  from C4_extraction_of_a_wrapped_array [OF p h l jt b bt af aft lang] p
  show ?thesis by simp
qed

theorem C4_counterexample:
  "JSON_parse ''[1,2]'' = Some (JArr [JNum (Fin 1), JNum (Fin 2)])
   \<and> safeParseJsonArrayFromText (''See [1]: '' @ ''[1,2]'') = None
   \<and> JSON_parse ''[\"```\"]'' = Some (JArr [JStr ''```''])
   \<and> safeParseJsonArrayFromText ''[\"```\"]'' = Some (JArr [JStr ''''])"
  by code_simp

end
